theory Spec2Isabelle
  imports Complex_Main
begin

unbundle bit_operations_syntax

section \<open>Data model\<close>

text \<open>
  The fields of the C++ struct \<open>SparseMatrix\<close> that the colouring engine
  (MultiColoring.cpp) and the smoother (ComputeSYMGS.cpp) read or write.  Device arrays are
  lists.  \<open>local_int_t\<close> is a signed 32-bit integer; row numbers, slot numbers and counts
  are never negative and stay below \<open>2 ^ 31\<close>, so they are \<open>nat\<close>, while colours, column
  indices and hashes, which use the sentinel \<open>-1\<close> or are compared as signed numbers, are
  \<open>int\<close>.  During the round loop of \<open>JPLColoring\<close> the array \<open>perm\<close> holds the colour
  of every row.  Values of type \<open>double\<close> are modelled by exact reals: rounding is not part
  of the model, \<open>fma a b c\<close> is \<open>a * b + c\<close>.
\<close>

record SparseMatrix =
  localNumberOfRows :: nat
  localNumberOfColumns :: nat
  numberOfNonzerosPerRow :: nat
  d_rowHash :: "int list"
  d_mtxIndL :: "int list"
  perm :: "int list"
  nblocks :: nat
  ublocks :: int
  sizes :: "nat list"
  offsets :: "nat list"
  ell_width :: nat
  ell_col_ind :: "int list"
  ell_val :: "real list"
  inv_diag :: "real list"
  diag_idx :: "nat list"
  halo_rows :: nat
  halo_row_ind :: "nat list"
  halo_col_ind :: "int list"
  halo_val :: "real list"
  geom_size :: nat

definition fma :: "real \<Rightarrow> real \<Rightarrow> real \<Rightarrow> real" where
  "fma a b c = a * b + c"

text \<open>
  The ways in which a run breaks.  \<open>DivisionByZero\<close> is an integer division by zero on the
  host.  \<open>OutOfBounds\<close> is a write behind the last entry of an array, after which the
  behaviour of the program is undefined.  \<open>AssertionFailed\<close> is a failed \<open>assert\<close>.
  \<open>NotFinite\<close> is a division of a \<open>double\<close> by zero on the device: the quotient is an
  infinity or not a number, which the reals do not have.
\<close>

datatype error = DivisionByZero | OutOfBounds | AssertionFailed | NotFinite

section \<open>Parallel reduction utility (MultiColoring.cpp)\<close>

text \<open>
  \<open>reduce_sum<BLOCKSIZE>\<close>: one stage per stride, each followed by a barrier.  A stage only
  writes entries below the stride and only reads entries it does not write or the thread's
  own entry, so the stage is the simultaneous update written here.
\<close>

definition reduce_stage :: "nat \<Rightarrow> nat \<Rightarrow> nat list \<Rightarrow> nat list" where
  "reduce_stage B s data =
     (if B > s
      then map (\<lambda>tid. if tid < s \<and> tid + s < B then data ! tid + data ! (tid + s) else data ! tid)
               [0..<length data]
      else data)"

definition reduce_sum :: "nat \<Rightarrow> nat list \<Rightarrow> nat list" where
  "reduce_sum B data = fold (reduce_stage B) [512, 256, 128, 64, 32, 16, 8, 4, 2, 1] data"

text \<open>The grid-stride loop of one thread of \<open>kernel_count_color_part1\<close>.\<close>

function count_color_thread :: "nat \<Rightarrow> nat \<Rightarrow> nat \<Rightarrow> int \<Rightarrow> int list \<Rightarrow> nat \<Rightarrow> nat" where
  "count_color_thread idx stride sz color colors acc =
     (if idx < sz \<and> 0 < stride
      then count_color_thread (idx + stride) stride sz color colors
             (if colors ! idx = color then acc + 1 else acc)
      else acc)"
  by pat_completeness auto
termination
  by (relation "measure (\<lambda>(idx, stride, sz, color, colors, acc). sz - idx)") auto

text \<open>
  \<open>kernel_count_color_part1<B>\<close> launched on \<open>G\<close> blocks of \<open>B\<close> threads: the result is the
  workspace, one partial count per block.
\<close>

definition kernel_count_color_part1 ::
  "nat \<Rightarrow> nat \<Rightarrow> nat \<Rightarrow> int \<Rightarrow> int list \<Rightarrow> nat list" where
  "kernel_count_color_part1 B G sz color colors =
     map (\<lambda>blk. reduce_sum B
                  (map (\<lambda>tid. count_color_thread (blk * B + tid) (G * B) sz color colors 0)
                       [0..<B]) ! 0)
         [0..<G]"

function sum_workspace_thread :: "nat \<Rightarrow> nat \<Rightarrow> nat \<Rightarrow> nat list \<Rightarrow> nat \<Rightarrow> nat" where
  "sum_workspace_thread idx stride sz workspace acc =
     (if idx < sz \<and> 0 < stride
      then sum_workspace_thread (idx + stride) stride sz workspace (acc + workspace ! idx)
      else acc)"
  by pat_completeness auto
termination
  by (relation "measure (\<lambda>(idx, stride, sz, workspace, acc). sz - idx)") auto

definition kernel_count_color_part2 :: "nat \<Rightarrow> nat \<Rightarrow> nat list \<Rightarrow> nat list" where
  "kernel_count_color_part2 B sz workspace =
     workspace[0 := reduce_sum B
                      (map (\<lambda>tid. sum_workspace_thread tid B sz workspace 0) [0..<B]) ! 0]"

text \<open>
  The two launches of \<open>JPLColoring\<close> that count the rows holding \<open>color\<close>, and the copy of
  \<open>tmp[0]\<close> to the host.
\<close>

definition count_color :: "nat \<Rightarrow> int \<Rightarrow> int list \<Rightarrow> nat" where
  "count_color m color colors =
     kernel_count_color_part2 256 256 (kernel_count_color_part1 256 256 m color colors) ! 0"

section \<open>Graph colouring engine (MultiColoring.cpp)\<close>

text \<open>
  \<open>kernel_jpl\<close> runs one thread per pair of a row and a slot of its adjacency list
  (\<open>hipBlockDim_x\<close> is \<open>numberOfNonzerosPerRow\<close>, here \<open>w\<close>).  The threads of a row share the
  two flags \<open>min\<close> and \<open>max\<close>, both set before the barrier; a thread only ever clears them.
\<close>

definition kernel_jpl_thread ::
  "nat \<Rightarrow> int list \<Rightarrow> int \<Rightarrow> int \<Rightarrow> int list \<Rightarrow> int list \<Rightarrow> nat \<Rightarrow> nat \<Rightarrow> nat
     \<Rightarrow> bool \<times> bool \<Rightarrow> bool \<times> bool" where
  "kernel_jpl_thread m hash color1 color2 mtxIndL colors w row tx flags =
     (let row_hash = hash ! row;
          col = mtxIndL ! (row * w + tx)
      in if col \<ge> 0 \<and> col < int m
         then if col \<noteq> int row
              then let color_nb = colors ! nat col
                   in if color_nb = -1 \<or> color_nb = color1 \<or> color_nb = color2
                      then let col_hash = hash ! nat col
                           in (if col_hash \<le> row_hash then False else fst flags,
                               if col_hash \<ge> row_hash then False else snd flags)
                      else flags
              else flags
         else flags)"

text \<open>
  All threads of one row: nothing happens to a row that is coloured already; otherwise the
  flags (\<open>min\<close> first, \<open>max\<close> second) decide after the second barrier.
\<close>

definition kernel_jpl_row ::
  "nat \<Rightarrow> int list \<Rightarrow> int \<Rightarrow> int \<Rightarrow> int list \<Rightarrow> nat \<Rightarrow> int list \<Rightarrow> nat \<Rightarrow> int list" where
  "kernel_jpl_row m hash color1 color2 mtxIndL w colors row =
     (if colors ! row \<noteq> -1 then colors
      else let flags = fold (kernel_jpl_thread m hash color1 color2 mtxIndL colors w row)
                            [0..<w] (True, True)
           in if snd flags then colors[row := color1]
              else if fst flags then colors[row := color2]
              else colors)"

text \<open>
  One launch of \<open>kernel_jpl\<close>.  The grid covers every row below \<open>m\<close>.  The rows are executed
  one after the other in place, so a row may read a colour that a neighbour received earlier in
  the same launch, as it may on the device.
\<close>

definition kernel_jpl ::
  "nat \<Rightarrow> int list \<Rightarrow> int \<Rightarrow> int \<Rightarrow> int list \<Rightarrow> nat \<Rightarrow> int list \<Rightarrow> int list" where
  "kernel_jpl m hash color1 color2 mtxIndL w colors =
     fold (\<lambda>row cs. kernel_jpl_row m hash color1 color2 mtxIndL w cs row) [0..<m] colors"

text \<open>
  The state of the host loop of \<open>JPLColoring\<close>: the matrix, the local counter \<open>colored\<close>,
  and the number of calls of \<open>rand()\<close> made so far.  The values that \<open>rand()\<close> returns after
  \<open>srand(RNG_SEED)\<close> depend on the C library and on a constant of utils.hpp; they are the
  parameter \<open>rnd\<close>, the \<open>k\<close>-th call returning \<open>rnd k\<close> (never negative).

  \<open>sizes\<close> and \<open>offsets\<close> are arrays of \<open>MAX_COLORS\<close> entries (also of utils.hpp).  The loop
  writes them at the indices \<open>nblocks\<close>, \<open>nblocks + 1\<close> and \<open>nblocks + 2\<close> only, which is the
  end of the part written so far: the lists of the state hold the written part, and
  \<open>JPL_round\<close> below checks every write against the capacity.
\<close>

record jpl_state =
  mat :: SparseMatrix
  colored :: nat
  rand_calls :: nat

definition round_color1 :: "(nat \<Rightarrow> nat) \<Rightarrow> jpl_state \<Rightarrow> int" where
  "round_color1 rnd s =
     (if nblocks (mat s) < 8 then int (rnd (rand_calls s) mod 8) else int (nblocks (mat s)))"

definition round_color2 :: "(nat \<Rightarrow> nat) \<Rightarrow> jpl_state \<Rightarrow> int" where
  "round_color2 rnd s =
     (if nblocks (mat s) < 8 then int (rnd (rand_calls s + 1) mod 8)
      else int (nblocks (mat s)) + 1)"

text \<open>
  The launch configuration that \<open>JPLColoring\<close> computes before the loop: \<open>blocksize\<close>
  starts as \<open>512 / numberOfNonzerosPerRow\<close>, is raised to the next power of two and halved
  until \<open>blocksize * numberOfNonzerosPerRow\<close> is at most 512.  \<open>blocksize\<close> is an
  \<open>unsigned int\<close>; no value below exceeds \<open>2 ^ 31\<close>, so nothing wraps around and the
  natural numbers are exact.  The division \<open>512 / numberOfNonzerosPerRow\<close> itself is in
  \<open>JPLColoring\<close> below.
\<close>

definition next_power_of_two :: "nat \<Rightarrow> nat" where
  "next_power_of_two b0 =
     (let b1 = b0 OR drop_bit 1 b0;
          b2 = b1 OR drop_bit 2 b1;
          b3 = b2 OR drop_bit 4 b2;
          b4 = b3 OR drop_bit 8 b3;
          b5 = b4 OR drop_bit 16 b4
      in b5 + 1)"

function shift_to_valid :: "nat \<Rightarrow> nat \<Rightarrow> nat" where
  "shift_to_valid w blocksize =
     (if blocksize * w > 512 then shift_to_valid w (drop_bit 1 blocksize) else blocksize)"
  by pat_completeness auto
termination
proof (relation "measure (\<lambda>(w, blocksize). blocksize)")
  show "wf (measure (\<lambda>(w :: nat, blocksize :: nat). blocksize))" by simp
next
  fix w blocksize :: nat
  assume "512 < blocksize * w"
  then have "0 < blocksize" by (cases blocksize) simp_all
  then show "((w, drop_bit 1 blocksize), w, blocksize) \<in> measure (\<lambda>(w, blocksize). blocksize)"
    by (simp add: drop_bit_eq_div)
qed

declare shift_to_valid.simps [simp del]

definition JPL_blocksize :: "nat \<Rightarrow> nat" where
  "JPL_blocksize w = shift_to_valid w (next_power_of_two (512 div w))"

text \<open>
  The body of the \<open>while\<close> loop, in two steps.  \<open>JPL_round_state\<close> is the state that the
  body leaves: the colours after the launch of \<open>kernel_jpl\<close>, the two counts appended to
  \<open>sizes\<close>, the two running sums appended to \<open>offsets\<close>.  The result of \<open>kernel_jpl\<close> does not
  depend on the launch configuration as long as the grid covers every row, which it does
  for every \<open>blocksize\<close> other than 0.
\<close>

definition JPL_round_state :: "(nat \<Rightarrow> nat) \<Rightarrow> jpl_state \<Rightarrow> jpl_state" where
  "JPL_round_state rnd s =
     (let A = mat s;
          m = localNumberOfRows A;
          color1 = round_color1 rnd s;
          color2 = round_color2 rnd s;
          cs = kernel_jpl m (d_rowHash A) color1 color2 (d_mtxIndL A)
                 (numberOfNonzerosPerRow A) (perm A);
          size1 = count_color m color1 cs;
          size2 = count_color m color2 cs;
          colored1 = colored s + size1;
          colored2 = colored1 + size2
      in \<lparr> mat = A\<lparr> perm := cs,
                    nblocks := nblocks A + 2,
                    sizes := sizes A @ [size1, size2],
                    offsets := offsets A @ [colored1, colored2] \<rparr>,
           colored = colored2,
           rand_calls = (if nblocks A < 8 then rand_calls s + 2 else rand_calls s) \<rparr>)"

text \<open>
  \<open>JPL_round\<close> is the body with the two ways in which it breaks.  The grid of \<open>kernel_jpl\<close>
  has \<open>(m - 1) / blocksize + 1\<close> blocks: a division by zero when \<open>blocksize\<close> is 0.  The
  arrays \<open>sizes\<close> and \<open>offsets\<close> have \<open>MAX_COLORS\<close> entries (a constant of utils.hpp, here
  the parameter \<open>max_colors\<close>), and the body writes \<open>sizes[nblocks]\<close>, \<open>sizes[nblocks + 1]\<close>,
  \<open>offsets[nblocks + 1]\<close> and \<open>offsets[nblocks + 2]\<close> without a check: all four writes are
  inside the arrays exactly when \<open>nblocks + 2 < MAX_COLORS\<close>.
\<close>

definition JPL_round :: "nat \<Rightarrow> nat \<Rightarrow> (nat \<Rightarrow> nat) \<Rightarrow> jpl_state \<Rightarrow> error + jpl_state" where
  "JPL_round max_colors blocksize rnd s =
     (if blocksize = 0 then Inl DivisionByZero
      else if nblocks (mat s) + 2 < max_colors then Inr (JPL_round_state rnd s)
      else Inl OutOfBounds)"

text \<open>
  The \<open>while (colored != m)\<close> loop.  The source has no bound on the number of rounds.  Every
  round that does not break advances \<open>nblocks\<close> by two, and a round breaks when
  \<open>nblocks + 2\<close> reaches \<open>MAX_COLORS\<close>: a run that never reaches \<open>colored = m\<close> ends by
  writing behind the arrays.
\<close>

function JPL_loop :: "nat \<Rightarrow> nat \<Rightarrow> (nat \<Rightarrow> nat) \<Rightarrow> jpl_state \<Rightarrow> error + jpl_state" where
  "JPL_loop max_colors blocksize rnd s =
     (if colored s \<noteq> localNumberOfRows (mat s)
      then (case JPL_round max_colors blocksize rnd s of
              Inl e \<Rightarrow> Inl e
            | Inr s' \<Rightarrow> JPL_loop max_colors blocksize rnd s')
      else Inr s)"
  by pat_completeness auto
termination
  by (relation "measure (\<lambda>(max_colors, blocksize, rnd, s). max_colors - nblocks (mat s))")
     (auto simp: JPL_round_def JPL_round_state_def Let_def split: if_splits)

declare JPL_loop.simps [simp del]

text \<open>The state in which \<open>JPLColoring\<close> enters the loop.\<close>

definition JPL_init :: "SparseMatrix \<Rightarrow> jpl_state" where
  "JPL_init A =
     \<lparr> mat = A\<lparr> perm := replicate (localNumberOfRows A) (-1),
                  nblocks := 0,
                  sizes := [],
                  offsets := [0] \<rparr>,
       colored = 0,
       rand_calls = 0 \<rparr>"

text \<open>
  \<open>JPLColoring\<close> up to the end of the round loop and the setting of \<open>ublocks\<close>
  (\<open>reference\<close> stands for the macro \<open>HPCG_REFERENCE\<close>).  Before the loop the source writes
  \<open>offsets[0]\<close>, which is behind the array when \<open>MAX_COLORS\<close> is 0, and divides 512 by
  \<open>numberOfNonzerosPerRow\<close>.  The matrix returned here still holds the colour of every row
  in \<open>perm\<close>; the sort that turns the colours into the permutation follows below.
\<close>

definition JPLColoring ::
  "nat \<Rightarrow> (nat \<Rightarrow> nat) \<Rightarrow> bool \<Rightarrow> SparseMatrix \<Rightarrow> error + SparseMatrix" where
  "JPLColoring max_colors rnd reference A =
     (if max_colors = 0 then Inl OutOfBounds
      else if numberOfNonzerosPerRow A = 0 then Inl DivisionByZero
      else case JPL_loop max_colors (JPL_blocksize (numberOfNonzerosPerRow A)) rnd (JPL_init A) of
             Inl e \<Rightarrow> Inl e
           | Inr s \<Rightarrow>
               Inr ((mat s)\<lparr> ublocks := (if reference then int (nblocks (mat s)) - 1
                                           else int (nblocks (mat s)) - 1 - 1) \<rparr>))"





definition kernel_create_perm :: "nat \<Rightarrow> nat list \<Rightarrow> int list \<Rightarrow> int list" where
  "kernel_create_perm sz inp out = fold (\<lambda>gid out. out[inp ! gid := int gid]) [0..<sz] out"



subsection \<open>The round rule in the words of the specification\<close>

text \<open>
  The neighbours a row is compared with: the columns stored in its adjacency list that are
  rows of the matrix, other than the row itself, and that are uncoloured or hold one of the
  two candidate colours.
\<close>

definition compared_neighbours ::
  "nat \<Rightarrow> int \<Rightarrow> int \<Rightarrow> int list \<Rightarrow> nat \<Rightarrow> int list \<Rightarrow> nat \<Rightarrow> nat list" where
  "compared_neighbours m color1 color2 mtxIndL w colors row =
     map (\<lambda>p. nat (mtxIndL ! (row * w + p)))
       (filter (\<lambda>p. let col = mtxIndL ! (row * w + p)
                    in 0 \<le> col \<and> col < int m \<and> col \<noteq> int row \<and>
                       (colors ! nat col = -1 \<or> colors ! nat col = color1
                          \<or> colors ! nat col = color2))
               [0..<w])"

definition strict_local_max :: "int list \<Rightarrow> nat list \<Rightarrow> nat \<Rightarrow> bool" where
  "strict_local_max hash nbs row = (\<forall>c \<in> set nbs. hash ! c < hash ! row)"

definition strict_local_min :: "int list \<Rightarrow> nat list \<Rightarrow> nat \<Rightarrow> bool" where
  "strict_local_min hash nbs row = (\<forall>c \<in> set nbs. hash ! row < hash ! c)"

text \<open>The colour a row holds after a round, as a function of the colours before the round.\<close>

definition jpl_new_color ::
  "nat \<Rightarrow> int list \<Rightarrow> int \<Rightarrow> int \<Rightarrow> int list \<Rightarrow> nat \<Rightarrow> int list \<Rightarrow> nat \<Rightarrow> int" where
  "jpl_new_color m hash color1 color2 mtxIndL w colors row =
     (let nbs = compared_neighbours m color1 color2 mtxIndL w colors row
      in if colors ! row \<noteq> -1 then colors ! row
         else if strict_local_max hash nbs row then color1
         else if strict_local_min hash nbs row then color2
         else -1)"


subsection \<open>Notions used to state the properties of the colouring\<close>

text \<open>
  The \<open>i\<close>-th colour nominated by the loop, whose count becomes \<open>sizes[i]\<close>: round \<open>k\<close>
  nominates the colours number \<open>2 * k\<close> and \<open>2 * k + 1\<close>.
\<close>

definition nominated :: "(nat \<Rightarrow> nat) \<Rightarrow> nat \<Rightarrow> int" where
  "nominated rnd i = (if i < 8 then int (rnd i mod 8) else int i)"

definition distinct_draws :: "(nat \<Rightarrow> nat) \<Rightarrow> bool" where
  "distinct_draws rnd = distinct (map (\<lambda>i. rnd i mod 8) [0..<8])"

text \<open>
  The values that \<open>rand()\<close> of the GNU C library returns after \<open>srand(0x586744)\<close>, the
  seed that utils.hpp defines as \<open>RNG_SEED\<close>.  The loop calls \<open>rand()\<close> eight times at most
  (twice per round while \<open>nblocks < 8\<close>), so only the first eight values are listed; their
  residues modulo 8 are 0, 7, 1, 2, 4, 3, 5, 6.
\<close>

definition rand_glibc :: "nat \<Rightarrow> nat" where
  "rand_glibc k =
     (if k < 8
      then [241252560, 294453055, 1553627849, 1704633178,
            1366234996, 243285459, 1341791365, 121845870] ! k
      else 0)"

text \<open>A stored off-diagonal entry \<open>(r, c)\<close> of the adjacency structure.\<close>

definition stored_entry :: "SparseMatrix \<Rightarrow> nat \<Rightarrow> nat \<Rightarrow> bool" where
  "stored_entry A r c =
     (r < localNumberOfRows A \<and> c < localNumberOfRows A \<and> c \<noteq> r \<and>
      (\<exists>p < numberOfNonzerosPerRow A.
         d_mtxIndL A ! (r * numberOfNonzerosPerRow A + p) = int c))"

definition symmetric_adjacency :: "SparseMatrix \<Rightarrow> bool" where
  "symmetric_adjacency A =
     (\<forall>r < localNumberOfRows A. \<forall>c < localNumberOfRows A.
        stored_entry A r c \<longrightarrow> stored_entry A c r)"

definition no_hash_ties :: "SparseMatrix \<Rightarrow> bool" where
  "no_hash_ties A =
     (\<forall>r < localNumberOfRows A. \<forall>c < localNumberOfRows A.
        stored_entry A r c \<longrightarrow> d_rowHash A ! r \<noteq> d_rowHash A ! c)"

definition proper_coloring :: "SparseMatrix \<Rightarrow> int list \<Rightarrow> bool" where
  "proper_coloring A colors =
     (\<forall>r < localNumberOfRows A. \<forall>c < localNumberOfRows A.
        stored_entry A r c \<longrightarrow> colors ! r \<noteq> colors ! c)"

definition all_colored :: "nat \<Rightarrow> int list \<Rightarrow> bool" where
  "all_colored m colors = (\<forall>i < m. colors ! i \<noteq> -1)"

text \<open>
  Well-formed adjacency lists: the arrays have the sizes of the matrix, every stored column
  is the padding \<open>-1\<close> or a row of the matrix, and a row stores itself in one slot at most.
\<close>

definition wellformed_adjacency :: "SparseMatrix \<Rightarrow> bool" where
  "wellformed_adjacency A =
     (length (d_rowHash A) = localNumberOfRows A \<and>
      length (d_mtxIndL A) = localNumberOfRows A * numberOfNonzerosPerRow A \<and>
      (\<forall>r < localNumberOfRows A.
         (\<forall>p < numberOfNonzerosPerRow A.
            -1 \<le> d_mtxIndL A ! (r * numberOfNonzerosPerRow A + p) \<and>
            d_mtxIndL A ! (r * numberOfNonzerosPerRow A + p) < int (localNumberOfRows A)) \<and>
         length (filter (\<lambda>p. d_mtxIndL A ! (r * numberOfNonzerosPerRow A + p) = int r)
                        [0..<numberOfNonzerosPerRow A]) \<le> 1))"

subsection \<open>Invariants of the round loop\<close>

text \<open>A slot of a row that takes part in the comparison of hashes.\<close>

definition cmp_slot ::
  "nat \<Rightarrow> int \<Rightarrow> int \<Rightarrow> int list \<Rightarrow> nat \<Rightarrow> int list \<Rightarrow> nat \<Rightarrow> nat \<Rightarrow> bool" where
  "cmp_slot m color1 color2 mtxIndL w colors row p =
     (let col = mtxIndL ! (row * w + p)
      in 0 \<le> col \<and> col < int m \<and> col \<noteq> int row \<and>
         (colors ! nat col = -1 \<or> colors ! nat col = color1 \<or> colors ! nat col = color2))"

text \<open>The bookkeeping of the loop, which holds whatever \<open>rand()\<close> returns.\<close>

definition book :: "jpl_state \<Rightarrow> bool" where
  "book s = (even (nblocks (mat s)) \<and> rand_calls s = min (nblocks (mat s)) 8 \<and>
             length (sizes (mat s)) = nblocks (mat s) \<and>
             length (offsets (mat s)) = nblocks (mat s) + 1 \<and>
             colored s = sum_list (sizes (mat s)) \<and>
             length (perm (mat s)) = localNumberOfRows (mat s))"

text \<open>
  Every colour in use has been nominated, and \<open>colored\<close> is the number of coloured rows:
  what the loop keeps when no colour is nominated twice.
\<close>

definition color_inv :: "(nat \<Rightarrow> nat) \<Rightarrow> jpl_state \<Rightarrow> bool" where
  "color_inv rnd s =
     (book s \<and>
      (\<forall>i < localNumberOfRows (mat s).
          perm (mat s) ! i = -1 \<or> (\<exists>j < nblocks (mat s). perm (mat s) ! i = nominated rnd j)) \<and>
      colored s = length (filter (\<lambda>i. perm (mat s) ! i \<noteq> -1) [0..<localNumberOfRows (mat s)]))"

text \<open>No two coloured rows joined by a stored entry share a colour.\<close>

definition partial_proper :: "SparseMatrix \<Rightarrow> int list \<Rightarrow> bool" where
  "partial_proper A colors =
     (\<forall>r < localNumberOfRows A. \<forall>c < localNumberOfRows A.
        stored_entry A r c \<longrightarrow> colors ! r \<noteq> -1 \<longrightarrow> colors ! c \<noteq> -1 \<longrightarrow> colors ! r \<noteq> colors ! c)"


section \<open>Block-triangular solver (ComputeSYMGS.cpp)\<close>

text \<open>
  Every kernel below runs one thread per row of a block.  The parameters keep
  the names of the source up to the prefixes \<open>ell_\<close> and \<open>halo_\<close>, which are the fields of
  the matrix, and the local variable \<open>sum\<close> is \<open>acc\<close>.  A launch is modelled as the threads
  executed one after the other, in the order of their global index, each thread reading the
  vector as the threads before it left it and writing its one entry.
\<close>

text \<open>The body of the \<open>for\<close> loop over the slots of \<open>kernel_symgs_sweep\<close>.\<close>

definition symgs_sweep_slot ::
  "nat \<Rightarrow> nat \<Rightarrow> int list \<Rightarrow> real list \<Rightarrow> real list \<Rightarrow> nat \<Rightarrow> nat \<Rightarrow> real \<Rightarrow> real" where
  "symgs_sweep_slot m n col_ind val y row p acc =
     (let idx = p * m + row;
          col = col_ind ! idx
      in if col \<ge> 0 \<and> col < int n \<and> col \<noteq> int row
         then fma (- (val ! idx)) (y ! nat col) acc
         else acc)"

definition kernel_symgs_sweep_thread ::
  "nat \<Rightarrow> nat \<Rightarrow> nat \<Rightarrow> nat \<Rightarrow> int list \<Rightarrow> real list \<Rightarrow> real list \<Rightarrow> real list
     \<Rightarrow> nat \<Rightarrow> real list \<Rightarrow> real list" where
  "kernel_symgs_sweep_thread m n offset width col_ind val idiag x gid y =
     (let row = gid + offset;
          acc = fold (symgs_sweep_slot m n col_ind val y row) [0..<width] (x ! row)
      in y[row := acc * idiag ! row])"

definition kernel_symgs_sweep ::
  "nat \<Rightarrow> nat \<Rightarrow> nat \<Rightarrow> nat \<Rightarrow> nat \<Rightarrow> int list \<Rightarrow> real list \<Rightarrow> real list \<Rightarrow> real list
     \<Rightarrow> real list \<Rightarrow> real list" where
  "kernel_symgs_sweep m n block_nrow offset width col_ind val idiag x y =
     fold (kernel_symgs_sweep_thread m n offset width col_ind val idiag x)
          [0..<block_nrow] y"

text \<open>
  \<open>kernel_symgs_interior\<close>: the rows of block 0, without an offset, and with the columns
  restricted to the local rows (\<open>col < m\<close>).
\<close>

definition kernel_symgs_interior_thread ::
  "nat \<Rightarrow> nat \<Rightarrow> int list \<Rightarrow> real list \<Rightarrow> real list \<Rightarrow> real list
     \<Rightarrow> nat \<Rightarrow> real list \<Rightarrow> real list" where
  "kernel_symgs_interior_thread m width col_ind val idiag x row y =
     (let acc = fold (symgs_sweep_slot m m col_ind val y row) [0..<width] (x ! row)
      in y[row := acc * idiag ! row])"

definition kernel_symgs_interior ::
  "nat \<Rightarrow> nat \<Rightarrow> nat \<Rightarrow> int list \<Rightarrow> real list \<Rightarrow> real list \<Rightarrow> real list
     \<Rightarrow> real list \<Rightarrow> real list" where
  "kernel_symgs_interior m block_nrow width col_ind val idiag x y =
     fold (kernel_symgs_interior_thread m width col_ind val idiag x)
          [0..<block_nrow] y"

text \<open>
  \<open>kernel_symgs_halo\<close>, the boundary corrector: one thread per halo row.  Here \<open>m\<close> is the
  number of halo rows, and the entries of \<open>perm\<close> are the positions of the rows in the
  colour-sorted order.
\<close>

definition symgs_halo_slot ::
  "nat \<Rightarrow> nat \<Rightarrow> int list \<Rightarrow> real list \<Rightarrow> real list \<Rightarrow> nat \<Rightarrow> nat \<Rightarrow> real \<Rightarrow> real" where
  "symgs_halo_slot m n hcol_ind hval y row p acc =
     (let idx = p * m + row;
          col = hcol_ind ! idx
      in if col \<ge> 0 \<and> col < int n
         then fma (- (hval ! idx)) (y ! nat col) acc
         else acc)"

definition kernel_symgs_halo_thread ::
  "nat \<Rightarrow> nat \<Rightarrow> nat \<Rightarrow> nat \<Rightarrow> nat list \<Rightarrow> int list \<Rightarrow> real list \<Rightarrow> real list \<Rightarrow> int list
     \<Rightarrow> nat \<Rightarrow> real list \<Rightarrow> real list" where
  "kernel_symgs_halo_thread m n block_nrow halo_width hrow_ind hcol_ind hval
       idiag prm row y =
     (let halo_idx = hrow_ind ! row;
          perm_idx = prm ! halo_idx
      in if perm_idx \<ge> int block_nrow then y
         else let acc = fold (symgs_halo_slot m n hcol_ind hval y row) [0..<halo_width] 0
              in y[nat perm_idx := fma acc (idiag ! halo_idx) (y ! nat perm_idx)])"

definition kernel_symgs_halo ::
  "nat \<Rightarrow> nat \<Rightarrow> nat \<Rightarrow> nat \<Rightarrow> nat list \<Rightarrow> int list \<Rightarrow> real list \<Rightarrow> real list \<Rightarrow> int list
     \<Rightarrow> real list \<Rightarrow> real list" where
  "kernel_symgs_halo m n block_nrow halo_width hrow_ind hcol_ind hval idiag prm y =
     fold (kernel_symgs_halo_thread m n block_nrow halo_width hrow_ind hcol_ind hval
             idiag prm)
          [0..<m] y"

definition kernel_pointwise_mult ::
  "nat \<Rightarrow> real list \<Rightarrow> real list \<Rightarrow> real list \<Rightarrow> real list" where
  "kernel_pointwise_mult sz x y out = fold (\<lambda>gid out. out[gid := x ! gid * y ! gid]) [0..<sz] out"

text \<open>\<open>kernel_forward_sweep_0\<close>: the slots below the diagonal slot, the columns below the offset.\<close>

definition forward_sweep_0_slot ::
  "nat \<Rightarrow> nat \<Rightarrow> int list \<Rightarrow> real list \<Rightarrow> real list \<Rightarrow> nat \<Rightarrow> nat \<Rightarrow> real \<Rightarrow> real" where
  "forward_sweep_0_slot m offset col_ind val y row p acc =
     (let idx = p * m + row;
          col = col_ind ! idx
      in if col \<ge> 0 \<and> col < int offset
         then fma (- (val ! idx)) (y ! nat col) acc
         else acc)"

text \<open>
  The thread divides by the diagonal entry of its row.  When that entry is 0 the quotient
  is not a real number, and the thread, the launch and the whole run give \<open>None\<close>.
\<close>

definition kernel_forward_sweep_0_thread ::
  "nat \<Rightarrow> nat \<Rightarrow> int list \<Rightarrow> real list \<Rightarrow> nat list \<Rightarrow> real list
     \<Rightarrow> nat \<Rightarrow> real list \<Rightarrow> real list option" where
  "kernel_forward_sweep_0_thread m offset col_ind val didx x gid y =
     (let row = gid + offset;
          diag = didx ! row;
          diag_val = val ! (diag * m + row);
          acc = fold (forward_sweep_0_slot m offset col_ind val y row) [0..<diag] (x ! row)
      in if diag_val = 0 then None else Some (y[row := acc / diag_val]))"

definition kernel_forward_sweep_0 ::
  "nat \<Rightarrow> nat \<Rightarrow> nat \<Rightarrow> nat \<Rightarrow> int list \<Rightarrow> real list \<Rightarrow> nat list \<Rightarrow> real list
     \<Rightarrow> real list \<Rightarrow> real list option" where
  "kernel_forward_sweep_0 m block_nrow offset width col_ind val didx x y =
     fold (\<lambda>gid y. Option.bind y (kernel_forward_sweep_0_thread m offset col_ind val didx x gid))
          [0..<block_nrow] (Some y)"

text \<open>
  \<open>kernel_backward_sweep_0\<close>: the slots above the diagonal slot, the columns from the offset
  up to the number of local rows.
\<close>

definition backward_sweep_0_slot ::
  "nat \<Rightarrow> nat \<Rightarrow> int list \<Rightarrow> real list \<Rightarrow> real list \<Rightarrow> nat \<Rightarrow> nat \<Rightarrow> real \<Rightarrow> real" where
  "backward_sweep_0_slot m offset col_ind val x row p acc =
     (let idx = p * m + row;
          col = col_ind ! idx
      in if col \<ge> int offset \<and> col < int m
         then fma (- (val ! idx)) (x ! nat col) acc
         else acc)"

definition kernel_backward_sweep_0_thread ::
  "nat \<Rightarrow> nat \<Rightarrow> nat \<Rightarrow> int list \<Rightarrow> real list \<Rightarrow> nat list
     \<Rightarrow> nat \<Rightarrow> real list \<Rightarrow> real list option" where
  "kernel_backward_sweep_0_thread m offset width col_ind val didx gid x =
     (let row = gid + offset;
          diag = didx ! row;
          diag_val = val ! (diag * m + row);
          acc = fold (backward_sweep_0_slot m offset col_ind val x row)
                     [diag + 1..<width] (x ! row * diag_val)
      in if diag_val = 0 then None else Some (x[row := acc / diag_val]))"

definition kernel_backward_sweep_0 ::
  "nat \<Rightarrow> nat \<Rightarrow> nat \<Rightarrow> nat \<Rightarrow> int list \<Rightarrow> real list \<Rightarrow> nat list
     \<Rightarrow> real list \<Rightarrow> real list option" where
  "kernel_backward_sweep_0 m block_nrow offset width col_ind val didx x =
     fold (\<lambda>gid x. Option.bind x (kernel_backward_sweep_0_thread m offset width col_ind val didx gid))
          [0..<block_nrow] (Some x)"

text \<open>
  The launches as \<open>ComputeSYMGS\<close> and \<open>ComputeSYMGSZeroGuess\<close> issue them:
  \<open>kernel_symgs_sweep\<close>, \<open>kernel_forward_sweep_0\<close> and \<open>kernel_backward_sweep_0\<close> on block
  \<open>i\<close>, \<open>kernel_symgs_interior\<close> and \<open>kernel_pointwise_mult\<close> on block 0, and
  \<open>kernel_symgs_halo\<close>, which receives \<open>ell_width\<close> as its \<open>halo_width\<close>.
\<close>

definition symgs_sweep_block :: "SparseMatrix \<Rightarrow> real list \<Rightarrow> nat \<Rightarrow> real list \<Rightarrow> real list" where
  "symgs_sweep_block A r i x =
     kernel_symgs_sweep (localNumberOfRows A) (localNumberOfColumns A) (sizes A ! i)
       (offsets A ! i) (ell_width A) (ell_col_ind A) (ell_val A) (inv_diag A) r x"

definition symgs_interior_block :: "SparseMatrix \<Rightarrow> real list \<Rightarrow> real list \<Rightarrow> real list" where
  "symgs_interior_block A r x =
     kernel_symgs_interior (localNumberOfRows A) (sizes A ! 0) (ell_width A)
       (ell_col_ind A) (ell_val A) (inv_diag A) r x"

definition symgs_halo_launch :: "SparseMatrix \<Rightarrow> real list \<Rightarrow> real list" where
  "symgs_halo_launch A x =
     kernel_symgs_halo (halo_rows A) (localNumberOfColumns A) (sizes A ! 0) (ell_width A)
       (halo_row_ind A) (halo_col_ind A) (halo_val A) (inv_diag A) (perm A) x"

definition pointwise_mult_block :: "SparseMatrix \<Rightarrow> real list \<Rightarrow> real list \<Rightarrow> real list" where
  "pointwise_mult_block A r x = kernel_pointwise_mult (sizes A ! 0) r (inv_diag A) x"

definition forward_sweep_0_block ::
  "SparseMatrix \<Rightarrow> real list \<Rightarrow> nat \<Rightarrow> real list \<Rightarrow> real list option" where
  "forward_sweep_0_block A r i x =
     kernel_forward_sweep_0 (localNumberOfRows A) (sizes A ! i) (offsets A ! i) (ell_width A)
       (ell_col_ind A) (ell_val A) (diag_idx A) r x"

definition backward_sweep_0_block :: "SparseMatrix \<Rightarrow> nat \<Rightarrow> real list \<Rightarrow> real list option" where
  "backward_sweep_0_block A i x =
     kernel_backward_sweep_0 (localNumberOfRows A) (sizes A ! i) (offsets A ! i) (ell_width A)
       (ell_col_ind A) (ell_val A) (diag_idx A) x"

text \<open>
  \<open>ComputeSYMGS\<close>.  The status returned is always 0 and is left out.  The halo exchange is
  an external collaborator: \<open>ObtainRecvBuffer\<close> is the parameter that maps the vector to the
  vector with the ghost values received (\<open>PrepareSendBuffer\<close> and \<open>ExchangeHaloAsync\<close> do not
  write \<open>x\<close>).  The branch on \<open>geom_size\<close> is the one the source compiles unless
  \<open>HPCG_NO_MPI\<close> is defined.  The loop \<open>for (i = ublocks; i >= 0; --i)\<close> runs over no block
  when \<open>ublocks\<close> is negative.
\<close>

definition ComputeSYMGS ::
  "(real list \<Rightarrow> real list) \<Rightarrow> SparseMatrix \<Rightarrow> real list \<Rightarrow> real list \<Rightarrow> error + real list" where
  "ComputeSYMGS ObtainRecvBuffer A r x =
     (if length x \<noteq> localNumberOfColumns A then Inl AssertionFailed
      else
        let x1 = symgs_interior_block A r x;
            x2 = (if geom_size A > 1 then symgs_halo_launch A (ObtainRecvBuffer x1) else x1);
            x3 = fold (symgs_sweep_block A r) [1..<nblocks A] x2;
            x4 = fold (symgs_sweep_block A r) (rev [0..<nat (ublocks A + 1)]) x3
        in Inr x4)"

text \<open>
  \<open>ComputeSYMGSZeroGuess\<close>.  \<open>forward_sweep_upto A r k x\<close> is the vector after the launch of
  \<open>kernel_pointwise_mult\<close> on block 0 and the launches of \<open>kernel_forward_sweep_0\<close> on the
  blocks from 1 up to \<open>k - 1\<close>; the forward sweep of the source (\<open>// Solve L\<close>) is the one
  with \<open>k = nblocks\<close>.
\<close>

definition forward_sweep_upto ::
  "SparseMatrix \<Rightarrow> real list \<Rightarrow> nat \<Rightarrow> real list \<Rightarrow> real list option" where
  "forward_sweep_upto A r k x =
     fold (\<lambda>i y. Option.bind y (forward_sweep_0_block A r i)) [1..<k]
          (Some (pointwise_mult_block A r x))"

definition backward_sweep_from :: "SparseMatrix \<Rightarrow> real list \<Rightarrow> real list option" where
  "backward_sweep_from A x =
     fold (\<lambda>i y. Option.bind y (backward_sweep_0_block A i)) (rev [0..<nat (ublocks A + 1)])
          (Some x)"

definition ComputeSYMGSZeroGuess ::
  "SparseMatrix \<Rightarrow> real list \<Rightarrow> real list \<Rightarrow> error + real list" where
  "ComputeSYMGSZeroGuess A r x =
     (if length x \<noteq> localNumberOfColumns A then Inl AssertionFailed
      else case Option.bind (forward_sweep_upto A r (nblocks A) x) (backward_sweep_from A) of
             None \<Rightarrow> Inl NotFinite
           | Some x3 \<Rightarrow> Inr x3)"

subsection \<open>The row formulas in the words of the specification\<close>

text \<open>
  The sum of \<open>A[row, col] * y[col]\<close> over the given slots of a row of an ELL structure with
  \<open>m\<close> rows, restricted to the columns that satisfy \<open>keep\<close>.
\<close>

definition row_sum ::
  "(int \<Rightarrow> bool) \<Rightarrow> nat \<Rightarrow> int list \<Rightarrow> real list \<Rightarrow> real list \<Rightarrow> nat \<Rightarrow> nat list \<Rightarrow> real" where
  "row_sum keep m col_ind val y row slots =
     (\<Sum>p\<leftarrow>slots. if keep (col_ind ! (p * m + row))
                  then val ! (p * m + row) * y ! nat (col_ind ! (p * m + row))
                  else 0)"

text \<open>The rows of the block that starts at \<open>offset\<close> and has \<open>block_nrow\<close> rows.\<close>

definition in_block :: "nat \<Rightarrow> nat \<Rightarrow> nat \<Rightarrow> bool" where
  "in_block offset block_nrow i = (offset \<le> i \<and> i < offset + block_nrow)"

text \<open>
  No row of the block stores, in a slot below \<open>width\<close>, a column kept by \<open>keep\<close> that is
  a row of the same block: what a proper colouring gives for the off-diagonal columns.
\<close>

definition block_independent ::
  "(nat \<Rightarrow> int \<Rightarrow> bool) \<Rightarrow> nat \<Rightarrow> nat \<Rightarrow> nat \<Rightarrow> nat \<Rightarrow> int list \<Rightarrow> bool" where
  "block_independent keep m offset block_nrow width col_ind =
     (\<forall>row < offset + block_nrow. \<forall>p < width.
        offset \<le> row \<longrightarrow> keep row (col_ind ! (p * m + row)) \<longrightarrow>
        \<not> in_block offset block_nrow (nat (col_ind ! (p * m + row))))"

text \<open>
  The value \<open>kernel_symgs_sweep\<close> gives a row: the right-hand side minus the sum over all
  stored off-diagonal columns, local or ghost, times the reciprocal of the diagonal.
\<close>

definition sweep_row_value :: "SparseMatrix \<Rightarrow> real list \<Rightarrow> real list \<Rightarrow> nat \<Rightarrow> real" where
  "sweep_row_value A r x row =
     (r ! row - row_sum (\<lambda>c. 0 \<le> c \<and> c < int (localNumberOfColumns A) \<and> c \<noteq> int row)
                  (localNumberOfRows A) (ell_col_ind A) (ell_val A) x row [0..<ell_width A])
     * inv_diag A ! row"

text \<open>
  The value the specification describes for a row of block \<open>i\<close> in the forward pass: the
  sum restricted to the columns below the offset of the block.
\<close>

definition below_offset_row_value ::
  "SparseMatrix \<Rightarrow> nat \<Rightarrow> real list \<Rightarrow> real list \<Rightarrow> nat \<Rightarrow> real" where
  "below_offset_row_value A i r x row =
     (r ! row - row_sum (\<lambda>c. 0 \<le> c \<and> c < int (offsets A ! i) \<and> c \<noteq> int row)
                  (localNumberOfRows A) (ell_col_ind A) (ell_val A) x row [0..<ell_width A])
     * inv_diag A ! row"

text \<open>
  The value of a row of block \<open>i\<close> in the forward sweep of the zero-guess variant: the slots
  below the diagonal slot, the columns below the offset of the block, divided by the value
  stored in the diagonal slot.
\<close>

definition zero_guess_row_value ::
  "SparseMatrix \<Rightarrow> nat \<Rightarrow> real list \<Rightarrow> real list \<Rightarrow> nat \<Rightarrow> real" where
  "zero_guess_row_value A i r x row =
     (r ! row - row_sum (\<lambda>c. 0 \<le> c \<and> c < int (offsets A ! i))
                  (localNumberOfRows A) (ell_col_ind A) (ell_val A) x row [0..<diag_idx A ! row])
     / ell_val A ! (diag_idx A ! row * localNumberOfRows A + row)"

text \<open>
  The corrected value of the entry of halo row \<open>row\<close>: the entry at the position of the row,
  plus the negated halo contributions times \<open>inv_diag\<close> at the index \<open>halo_row_ind[row]\<close>,
  as the kernel reads it.
\<close>

definition halo_corrected_value :: "SparseMatrix \<Rightarrow> real list \<Rightarrow> nat \<Rightarrow> real" where
  "halo_corrected_value A x row =
     x ! nat (perm A ! (halo_row_ind A ! row))
     + (0 - row_sum (\<lambda>c. 0 \<le> c \<and> c < int (localNumberOfColumns A))
               (halo_rows A) (halo_col_ind A) (halo_val A) x row [0..<ell_width A])
       * inv_diag A ! (halo_row_ind A ! row)"

text \<open>
  Well-formed halo structure: the halo rows have distinct positions in the colour-sorted
  order, none negative, and the columns of the halo structure lie behind block 0 (they are
  ghost columns, which come after all local rows).
\<close>

definition halo_wellformed :: "SparseMatrix \<Rightarrow> bool" where
  "halo_wellformed A =
     ((\<forall>row < halo_rows A. 0 \<le> perm A ! (halo_row_ind A ! row)) \<and>
      (\<forall>row < halo_rows A. \<forall>row' < halo_rows A.
          row \<noteq> row' \<longrightarrow> perm A ! (halo_row_ind A ! row) \<noteq> perm A ! (halo_row_ind A ! row')) \<and>
      (\<forall>row < halo_rows A. \<forall>p < ell_width A.
          0 \<le> halo_col_ind A ! (p * halo_rows A + row) \<and>
          halo_col_ind A ! (p * halo_rows A + row) < int (localNumberOfColumns A)
          \<longrightarrow> int (sizes A ! 0) \<le> halo_col_ind A ! (p * halo_rows A + row)))"


subsection \<open>The invariants of the data model that the solver relies on\<close>

text \<open>The value stored in the diagonal slot of a row.\<close>

definition diag_val :: "SparseMatrix \<Rightarrow> nat \<Rightarrow> real" where
  "diag_val A row = ell_val A ! (diag_idx A ! row * localNumberOfRows A + row)"

text \<open>
  The block table: at least one block, the offsets are the running sums of the sizes and
  end at the number of rows, and \<open>ublocks\<close> is one of the two values \<open>JPLColoring\<close> sets.
\<close>

definition block_table_wellformed :: "SparseMatrix \<Rightarrow> bool" where
  "block_table_wellformed A =
     (0 < nblocks A \<and> nblocks A \<le> length (sizes A) \<and> nblocks A < length (offsets A) \<and>
      offsets A ! 0 = 0 \<and>
      (\<forall>i < nblocks A. offsets A ! Suc i = offsets A ! i + sizes A ! i) \<and>
      offsets A ! nblocks A = localNumberOfRows A \<and>
      (ublocks A = int (nblocks A) - 1 \<or> ublocks A = int (nblocks A) - 2))"

text \<open>
  Every row has its diagonal entry in the slot \<open>diag_idx\<close>, the entry is not zero, and
  \<open>inv_diag\<close> is its reciprocal.
\<close>

definition diagonal_wellformed :: "SparseMatrix \<Rightarrow> bool" where
  "diagonal_wellformed A =
     (\<forall>row < localNumberOfRows A.
        diag_idx A ! row < ell_width A \<and>
        ell_col_ind A ! (diag_idx A ! row * localNumberOfRows A + row) = int row \<and>
        diag_val A row \<noteq> 0 \<and>
        inv_diag A ! row = 1 / diag_val A row)"

text \<open>
  The assumption stated in the source above \<open>ComputeSYMGS\<close>: in each row the lower
  triangular entries are stored before the diagonal entry, the upper ones after it.
\<close>

definition slots_ordered :: "SparseMatrix \<Rightarrow> bool" where
  "slots_ordered A =
     (\<forall>row < localNumberOfRows A. \<forall>p < ell_width A.
        0 \<le> ell_col_ind A ! (p * localNumberOfRows A + row) \<and>
        ell_col_ind A ! (p * localNumberOfRows A + row) < int (localNumberOfColumns A) \<longrightarrow>
        (p < diag_idx A ! row \<longrightarrow> ell_col_ind A ! (p * localNumberOfRows A + row) < int row) \<and>
        (diag_idx A ! row < p \<longrightarrow> int row < ell_col_ind A ! (p * localNumberOfRows A + row)))"

text \<open>Every block is an independent set: what the colouring is for.\<close>

definition blocks_independent :: "SparseMatrix \<Rightarrow> bool" where
  "blocks_independent A =
     (\<forall>i < nblocks A.
        block_independent (\<lambda>row c. 0 \<le> c \<and> c < int (localNumberOfColumns A) \<and> c \<noteq> int row)
          (localNumberOfRows A) (offsets A ! i) (sizes A ! i) (ell_width A) (ell_col_ind A))"

definition symgs_wellformed :: "SparseMatrix \<Rightarrow> bool" where
  "symgs_wellformed A =
     (localNumberOfRows A \<le> localNumberOfColumns A \<and> block_table_wellformed A \<and>
      diagonal_wellformed A \<and> slots_ordered A \<and> blocks_independent A)"

text \<open>The vector has the length of the matrix and is zero from entry \<open>k\<close> on.\<close>

definition zero_from :: "SparseMatrix \<Rightarrow> nat \<Rightarrow> real list \<Rightarrow> bool" where
  "zero_from A k y =
     (length y = localNumberOfColumns A \<and> (\<forall>j. k \<le> j \<and> j < localNumberOfColumns A \<longrightarrow> y ! j = 0))"

text \<open>
  The distributed run in which every domain starts from the zero vector: the columns of the
  halo structure are ghost columns, and the exchange leaves a vector whose ghost entries
  are zero as it is.
\<close>

definition zero_ghost_exchange :: "(real list \<Rightarrow> real list) \<Rightarrow> SparseMatrix \<Rightarrow> bool" where
  "zero_ghost_exchange ObtainRecvBuffer A =
     ((\<forall>row < halo_rows A. \<forall>p < ell_width A.
          0 \<le> halo_col_ind A ! (p * halo_rows A + row) \<and>
          halo_col_ind A ! (p * halo_rows A + row) < int (localNumberOfColumns A)
          \<longrightarrow> int (localNumberOfRows A) \<le> halo_col_ind A ! (p * halo_rows A + row)) \<and>
      (\<forall>y. zero_from A (localNumberOfRows A) y \<longrightarrow> ObtainRecvBuffer y = y))"

text \<open>
  The sums over the stored columns below and above a row, and the relation that the forward
  sweep leaves between a row and the rows below it.
\<close>

definition lower_sum :: "SparseMatrix \<Rightarrow> real list \<Rightarrow> nat \<Rightarrow> real" where
  "lower_sum A y row =
     row_sum (\<lambda>c. 0 \<le> c \<and> c < int (localNumberOfColumns A) \<and> c < int row)
       (localNumberOfRows A) (ell_col_ind A) (ell_val A) y row [0..<ell_width A]"

definition upper_sum :: "SparseMatrix \<Rightarrow> real list \<Rightarrow> nat \<Rightarrow> real" where
  "upper_sum A y row =
     row_sum (\<lambda>c. 0 \<le> c \<and> c < int (localNumberOfColumns A) \<and> int row < c)
       (localNumberOfRows A) (ell_col_ind A) (ell_val A) y row [0..<ell_width A]"

definition fwd_rel :: "SparseMatrix \<Rightarrow> real list \<Rightarrow> real list \<Rightarrow> nat \<Rightarrow> bool" where
  "fwd_rel A r y row = (diag_val A row * y ! row = r ! row - lower_sum A y row)"

text \<open>
  The state of the vector during the forward pass, when the rows below \<open>k\<close> have been
  updated: zero from \<open>k\<close> on, and the forward relation for every updated row.  During the
  backward pass over the block from \<open>offset\<close> to \<open>hi\<close>, when the rows from \<open>lo\<close> on are
  still to be updated: zero ghost entries, and the forward relation for the rows that are
  still to be updated in this and in the earlier blocks.
\<close>

definition fwd_inv :: "SparseMatrix \<Rightarrow> real list \<Rightarrow> nat \<Rightarrow> real list \<Rightarrow> bool" where
  "fwd_inv A r k y = (zero_from A k y \<and> (\<forall>j < k. fwd_rel A r y j))"

definition bwd_inv ::
  "SparseMatrix \<Rightarrow> real list \<Rightarrow> nat \<Rightarrow> nat \<Rightarrow> nat \<Rightarrow> real list \<Rightarrow> bool" where
  "bwd_inv A r offset lo hi y =
     (zero_from A (localNumberOfRows A) y \<and>
      (\<forall>j. j < offset \<or> (lo \<le> j \<and> j < hi) \<longrightarrow> fwd_rel A r y j))"

subsection \<open>The naive sequential sweep, in the words of the specification\<close>

text \<open>
  The Gauss-Seidel update of one row: the right-hand side minus the contributions of all
  stored off-diagonal columns, divided by the diagonal entry.  The naive symmetric sweep
  updates the rows one after the other, from the first to the last and then from the last to
  the first.  This is the reference that \<open>ComputeSYMGS\<close> is compared with; it is not taken
  from the source.
\<close>

definition gs_row_update :: "SparseMatrix \<Rightarrow> real list \<Rightarrow> nat \<Rightarrow> real list \<Rightarrow> real list" where
  "gs_row_update A r row y =
     y[row := (r ! row - row_sum (\<lambda>c. 0 \<le> c \<and> c < int (localNumberOfColumns A) \<and> c \<noteq> int row)
                           (localNumberOfRows A) (ell_col_ind A) (ell_val A) y row
                           [0..<ell_width A])
              / diag_val A row]"


subsection \<open>The matrix that the solver is given\<close>









subsection \<open>The state at the start of a round\<close>

text \<open>
  The state in which round \<open>k\<close> (counted from 0) starts, when the loop gets that far.
\<close>

definition JPL_state_at :: "(nat \<Rightarrow> nat) \<Rightarrow> SparseMatrix \<Rightarrow> nat \<Rightarrow> jpl_state" where
  "JPL_state_at rnd A k = (JPL_round_state rnd ^^ k) (JPL_init A)"

section \<open>Example inputs\<close>

text \<open>A matrix of which only the adjacency structure and the hashes matter.\<close>

definition adjacency :: "nat \<Rightarrow> nat \<Rightarrow> int list \<Rightarrow> int list \<Rightarrow> SparseMatrix" where
  "adjacency m w hash ind =
     \<lparr> localNumberOfRows = m, localNumberOfColumns = m, numberOfNonzerosPerRow = w,
       d_rowHash = hash, d_mtxIndL = ind, perm = [], nblocks = 0, ublocks = 0,
       sizes = [], offsets = [], ell_width = 0, ell_col_ind = [], ell_val = [],
       inv_diag = [], diag_idx = [], halo_rows = 0, halo_row_ind = [], halo_col_ind = [],
       halo_val = [], geom_size = 1 \<rparr>"

text \<open>Two adjacent rows with the same hash.\<close>

definition tie_pair :: SparseMatrix where
  "tie_pair = adjacency 2 2 [5, 5] [0, 1, 0, 1]"

text \<open>The chains \<open>0 - 1 - 2\<close> and \<open>0 - 1 - \<dots> - 8\<close>, hashes increasing.\<close>

definition path3 :: SparseMatrix where
  "path3 = adjacency 3 3 [1, 2, 3] [-1, 0, 1,  0, 1, 2,  1, 2, -1]"

definition path9 :: SparseMatrix where
  "path9 = adjacency 9 3 [10, 11, 12, 13, 14, 15, 16, 17, 18]
     [-1, 0, 1,  0, 1, 2,  1, 2, 3,  2, 3, 4,  3, 4, 5,  4, 5, 6,  5, 6, 7,  6, 7, 8,  7, 8, -1]"

text \<open>
  Three rows, each storing itself and the next row cyclically: every column index is in
  range, the only self-loop of a row is its first slot, and the structure is not symmetric.
\<close>

definition one_way_cycle :: SparseMatrix where
  "one_way_cycle = adjacency 3 2 [3, 2, 1] [0, 1,  1, 2,  2, 0]"

text \<open>A row with an adjacency list of width 0, and a row with one of width 513.\<close>

definition no_slot_row :: SparseMatrix where
  "no_slot_row = adjacency 1 0 [5] []"

definition wide_row :: SparseMatrix where
  "wide_row = adjacency 1 513 [5] (0 # replicate 512 (-1))"

text \<open>
  The chain \<open>0 - 1 - 2\<close> with one row per block: rows 0 and 1 are both adjacent to row 2
  only; diagonal 2, off-diagonal \<open>-1\<close>.
\<close>

definition chain3 :: SparseMatrix where
  "chain3 =
     \<lparr> localNumberOfRows = 3, localNumberOfColumns = 3, numberOfNonzerosPerRow = 3,
       d_rowHash = [], d_mtxIndL = [], perm = [1, 2, 0], nblocks = 4, ublocks = 2,
       sizes = [1, 1, 1, 0], offsets = [0, 1, 2, 3, 3], ell_width = 3,
       ell_col_ind = [0, 1, 0,  2, 2, 1,  -1, -1, 2],
       ell_val = [2, 2, -1,  -1, -1, -1,  0, 0, 2],
       inv_diag = [1 / 2, 1 / 2, 1 / 2], diag_idx = [0, 0, 2],
       halo_rows = 0, halo_row_ind = [], halo_col_ind = [], halo_val = [], geom_size = 1 \<rparr>"

text \<open>
  Two local rows of a longer chain \<open>g - 0 - 1 - g'\<close> on one of several domains: the ghost
  columns 2 and 3 are the neighbours of row 0 and of row 1 on other domains.  Both rows are
  halo rows; row 0 is block 0, row 1 is block 1.
\<close>

definition halo_chain :: SparseMatrix where
  "halo_chain =
     \<lparr> localNumberOfRows = 2, localNumberOfColumns = 4, numberOfNonzerosPerRow = 3,
       d_rowHash = [], d_mtxIndL = [], perm = [0, 1], nblocks = 2, ublocks = 0,
       sizes = [1, 1], offsets = [0, 1, 2], ell_width = 3,
       ell_col_ind = [0, 0,  1, 1,  2, 3],
       ell_val = [2, -1,  -1, 2,  -1, -1],
       inv_diag = [1 / 2, 1 / 2], diag_idx = [0, 1],
       halo_rows = 2, halo_row_ind = [0, 1], halo_col_ind = [2, 3,  -1, -1,  -1, -1],
       halo_val = [-1, -1,  0, 0,  0, 0], geom_size = 2 \<rparr>"

text \<open>An exchange that delivers the ghost values \<open>g\<close> behind the \<open>m\<close> local entries.\<close>

definition fill_ghosts :: "nat \<Rightarrow> real list \<Rightarrow> real list \<Rightarrow> real list" where
  "fill_ghosts m g y = take m y @ g"

text \<open>
  Two rows, one block each, in which row 1 stores its lower entry (column 0) behind its
  diagonal entry.
\<close>

definition unordered_pair :: SparseMatrix where
  "unordered_pair =
     \<lparr> localNumberOfRows = 2, localNumberOfColumns = 2, numberOfNonzerosPerRow = 2,
       d_rowHash = [], d_mtxIndL = [], perm = [0, 1], nblocks = 2, ublocks = 0,
       sizes = [1, 1], offsets = [0, 1, 2], ell_width = 2,
       ell_col_ind = [0, 1,  1, 0],
       ell_val = [2, 2,  -1, -1],
       inv_diag = [1 / 2, 1 / 2], diag_idx = [0, 0],
       halo_rows = 0, halo_row_ind = [], halo_col_ind = [], halo_val = [], geom_size = 1 \<rparr>"



definition chain4_sorted :: SparseMatrix where
  "chain4_sorted =
     \<lparr> localNumberOfRows = 4, localNumberOfColumns = 6, numberOfNonzerosPerRow = 3,
       d_rowHash = [], d_mtxIndL = [], perm = [2, 0, 3, 1], nblocks = 2, ublocks = 0,
       sizes = [2, 2], offsets = [0, 2, 4], ell_width = 3,
       ell_col_ind = [0, 1, 0, 0,  2, 3, 2, 1,  3, 5, 4, 3],
       ell_val = [2, 4, -1, -1,  -1, -1, 2, -1,  -1, -1, -1, 4],
       inv_diag = [1 / 2, 1 / 4, 1 / 2, 1 / 4], diag_idx = [0, 0, 1, 2],
       halo_rows = 2, halo_row_ind = [0, 3], halo_col_ind = [4, 5,  -1, -1,  -1, -1],
       halo_val = [-1, -1,  0, 0,  0, 0], geom_size = 2 \<rparr>"










section \<open>Lemmas: the parallel reduction\<close>

lemma length_reduce_stage [simp]: "length (reduce_stage B s d) = length d"
  by (simp add: reduce_stage_def)

lemma reduce_stage_sum:
  assumes "length d = B"
  shows "(\<Sum>i<min s B. reduce_stage B s d ! i) = (\<Sum>i<min (2 * s) B. d ! i)"
proof (cases "B > s")
  case False
  then show ?thesis by (simp add: reduce_stage_def min_def)
next
  case True
  have "(\<Sum>i<min s B. reduce_stage B s d ! i) = (\<Sum>i<s. d ! i + (if i + s < B then d ! (i + s) else 0))"
    using True assms by (intro sum.cong) (auto simp: reduce_stage_def min_def)
  also have "\<dots> = (\<Sum>i<s. d ! i) + (\<Sum>i<s. if i + s < B then d ! (i + s) else 0)"
    by (simp add: sum.distrib)
  also have "(\<Sum>i<s. if i + s < B then d ! (i + s) else 0) = (\<Sum>i\<in>{i. i < s \<and> i + s < B}. d ! (i + s))"
    by (subst sum.inter_filter[symmetric]) (auto intro: sum.cong)
  also have "\<dots> = (\<Sum>j\<in>{s..<min (2*s) B}. d ! j)"
    by (rule sum.reindex_bij_witness[of _ "\<lambda>j. j - s" "\<lambda>i. i + s"]) auto
  also have "(\<Sum>i<s. d ! i) + (\<Sum>j\<in>{s..<min (2*s) B}. d ! j) = (\<Sum>i<min (2 * s) B. d ! i)"
  proof -
    have "{..<min (2*s) B} = {..<s} \<union> {s..<min (2*s) B}" using True by auto
    moreover have "{..<s} \<inter> {s..<min (2*s) B} = {}" by auto
    ultimately show ?thesis by (simp add: sum.union_disjoint)
  qed
  finally show ?thesis .
qed

lemma reduce_fold_sum:
  "length d = B \<Longrightarrow>
   (\<Sum>i<min 1 B. fold (reduce_stage B) (map (\<lambda>j. 2 ^ j) (rev [0..<k])) d ! i)
     = (\<Sum>i<min (2 ^ k) B. d ! i)"
proof (induction k arbitrary: d)
  case 0
  then show ?case by simp
next
  case (Suc k)
  have "(\<Sum>i<min 1 B. fold (reduce_stage B) (map (\<lambda>j. 2 ^ j) (rev [0..<k])) (reduce_stage B (2 ^ k) d) ! i)
        = (\<Sum>i<min (2 ^ k) B. reduce_stage B (2 ^ k) d ! i)"
    using Suc.prems by (intro Suc.IH) simp
  also have "\<dots> = (\<Sum>i<min (2 * 2 ^ k) B. d ! i)"
    using Suc.prems by (rule reduce_stage_sum)
  finally show ?case by simp
qed

lemma reduce_stages_pow: "[512, 256, 128, 64, 32, 16, 8, 4, 2, 1::nat] = map (\<lambda>j. 2 ^ j) (rev [0..<10])"
  by (simp add: upt_rec numeral_eq_Suc)

lemma reduce_sum_0:
  assumes "length d = B" "0 < B" "B \<le> 1024"
  shows "reduce_sum B d ! 0 = sum_list d"
proof -
  have "(\<Sum>i<min 1 B. reduce_sum B d ! i) = (\<Sum>i<min (2 ^ 10) B. d ! i)"
    unfolding reduce_sum_def reduce_stages_pow using assms(1) by (rule reduce_fold_sum)
  moreover have "min 1 B = 1" "min (2 ^ 10) B = B" using assms by auto
  ultimately have "reduce_sum B d ! 0 = (\<Sum>i<B. d ! i)" by simp
  also have "\<dots> = sum_list d" using assms(1) by (simp add: sum_list_sum_nth lessThan_atLeast0)
  finally show ?thesis .
qed


lemma stride_set_split:
  assumes "idx < sz" "0 < (stride::nat)"
  shows "{j. idx \<le> j \<and> j < sz \<and> j mod stride = idx mod stride}
         = insert idx {j. idx + stride \<le> j \<and> j < sz \<and> j mod stride = (idx + stride) mod stride}"
proof -
  have "idx + stride \<le> j" if "idx \<le> j" "j \<noteq> idx" "j mod stride = idx mod stride" for j
  proof -
    have "idx < j" using that by simp
    have "stride dvd j - idx" using that(1,3) by (metis mod_eq_dvd_iff_nat)
    then have "stride \<le> j - idx" using \<open>idx < j\<close> by (intro dvd_imp_le) simp_all
    then show ?thesis using \<open>idx < j\<close> by simp
  qed
  then show ?thesis using assms by auto
qed

lemma count_color_thread_eq:
  "0 < stride \<Longrightarrow>
   count_color_thread idx stride sz color colors acc
     = acc + (\<Sum>j\<in>{j. idx \<le> j \<and> j < sz \<and> j mod stride = idx mod stride}.
                if colors ! j = color then 1 else 0)"
proof (induction idx stride sz color colors acc rule: count_color_thread.induct)
  case (1 idx stride sz color colors acc)
  show ?case
  proof (cases "idx < sz")
    case False
    then have "{j. idx \<le> j \<and> j < sz \<and> j mod stride = idx mod stride} = {}" by auto
    then show ?thesis using False by simp
  next
    case True
    have fin: "finite {j. idx + stride \<le> j \<and> j < sz \<and> j mod stride = (idx + stride) mod stride}"
      by simp
    have notin: "idx \<notin> {j. idx + stride \<le> j \<and> j < sz \<and> j mod stride = (idx + stride) mod stride}"
      using "1.prems" by simp
    show ?thesis
      apply (subst count_color_thread.simps)
      using True "1.prems" "1.IH"[OF _ "1.prems"]
      by (simp add: stride_set_split[OF True "1.prems"] sum.insert[OF fin notin] del: count_color_thread.simps)
  qed
qed

lemma sum_workspace_thread_eq:
  "0 < stride \<Longrightarrow>
   sum_workspace_thread idx stride sz workspace acc
     = acc + (\<Sum>j\<in>{j. idx \<le> j \<and> j < sz \<and> j mod stride = idx mod stride}. workspace ! j)"
proof (induction idx stride sz workspace acc rule: sum_workspace_thread.induct)
  case (1 idx stride sz workspace acc)
  show ?case
  proof (cases "idx < sz")
    case False
    then have "{j. idx \<le> j \<and> j < sz \<and> j mod stride = idx mod stride} = {}" by auto
    then have "(\<Sum>j\<in>{j. idx \<le> j \<and> j < sz \<and> j mod stride = idx mod stride}. workspace ! j) = 0"
      by (simp only: sum.empty)
    then show ?thesis using False by simp
  next
    case True
    have fin: "finite {j. idx + stride \<le> j \<and> j < sz \<and> j mod stride = (idx + stride) mod stride}"
      by simp
    have notin: "idx \<notin> {j. idx + stride \<le> j \<and> j < sz \<and> j mod stride = (idx + stride) mod stride}"
      using "1.prems" by simp
    show ?thesis
      apply (subst sum_workspace_thread.simps)
      using True "1.prems" "1.IH"[OF _ "1.prems"]
      by (simp add: stride_set_split[OF True "1.prems"] sum.insert[OF fin notin] del: sum_workspace_thread.simps)
  qed
qed

lemma strided_partition:
  assumes "0 < (N::nat)"
  shows "(\<Sum>gid<N. \<Sum>j\<in>{j. gid \<le> j \<and> j < sz \<and> j mod N = gid mod N}. (h j :: nat)) = (\<Sum>j<sz. h j)"
proof -
  have "(\<Sum>gid<N. \<Sum>j\<in>{j. gid \<le> j \<and> j < sz \<and> j mod N = gid mod N}. h j)
        = (\<Sum>gid\<in>{..<N}. \<Sum>j\<in>{j \<in> {..<sz}. j mod N = gid}. h j)"
  proof (rule sum.cong[OF refl])
    fix gid assume "gid \<in> {..<N}"
    then have "gid mod N = gid" by simp
    moreover have "gid \<le> j" if "j mod N = gid" for j using that mod_less_eq_dividend[of j N] by simp
    ultimately have "{j. gid \<le> j \<and> j < sz \<and> j mod N = gid mod N} = {j \<in> {..<sz}. j mod N = gid}"
      by auto
    then show "(\<Sum>j\<in>{j. gid \<le> j \<and> j < sz \<and> j mod N = gid mod N}. h j) = (\<Sum>j\<in>{j \<in> {..<sz}. j mod N = gid}. h j)"
      by simp
  qed
  also have "\<dots> = (\<Sum>j<sz. h j)"
    using assms by (intro sum.group) auto
  finally show ?thesis .
qed

lemma kernel_count_color_part1_sum:
  assumes "0 < B" "B \<le> 1024" "0 < G"
  shows "sum_list (kernel_count_color_part1 B G sz color colors)
         = (\<Sum>j<sz. if colors ! j = color then 1 else 0)"
proof -
  let ?h = "\<lambda>j. if colors ! j = color then 1 else (0::nat)"
  let ?t = "\<lambda>gid. \<Sum>j\<in>{j. gid \<le> j \<and> j < sz \<and> j mod (G * B) = gid mod (G * B)}. ?h j"
  have GB: "0 < G * B" using assms by simp
  have blk: "reduce_sum B (map (\<lambda>tid. count_color_thread (blk * B + tid) (G * B) sz color colors 0) [0..<B]) ! 0
             = (\<Sum>tid<B. ?t (blk * B + tid))" for blk
    using assms by (simp add: reduce_sum_0 count_color_thread_eq[OF GB] sum_list_sum_nth lessThan_atLeast0 del: count_color_thread.simps)
  have "sum_list (kernel_count_color_part1 B G sz color colors) = (\<Sum>blk<G. \<Sum>tid<B. ?t (blk * B + tid))"
    by (simp add: kernel_count_color_part1_def blk sum_list_sum_nth lessThan_atLeast0 del: count_color_thread.simps)
  also have "\<dots> = (\<Sum>gid<G * B. ?t gid)"
  proof -
    have "(\<Sum>gid<G * B. ?t gid) = (\<Sum>blk<G. \<Sum>gid\<in>{blk * B..<blk * B + B}. ?t gid)"
      by (rule sum.nat_group[symmetric])
    also have "\<dots> = (\<Sum>blk<G. \<Sum>tid<B. ?t (blk * B + tid))"
    proof (rule sum.cong[OF refl])
      fix blk
      show "(\<Sum>gid\<in>{blk * B..<blk * B + B}. ?t gid) = (\<Sum>tid<B. ?t (blk * B + tid))"
        by (rule sum.reindex_bij_witness[of _ "\<lambda>tid. blk * B + tid" "\<lambda>gid. gid - blk * B"]) auto
    qed
    finally show ?thesis by simp
  qed
  also have "\<dots> = (\<Sum>j<sz. ?h j)" by (rule strided_partition[OF GB])
  finally show ?thesis .
qed


lemma kernel_count_color_part2_0:
  assumes "0 < B" "B \<le> 1024" "length workspace = sz" "0 < sz"
  shows "kernel_count_color_part2 B sz workspace ! 0 = sum_list workspace"
proof -
  have "kernel_count_color_part2 B sz workspace ! 0
        = (\<Sum>tid<B. \<Sum>j\<in>{j. tid \<le> j \<and> j < sz \<and> j mod B = tid mod B}. workspace ! j)"
    using assms
    by (simp add: kernel_count_color_part2_def reduce_sum_0 sum_workspace_thread_eq
        sum_list_sum_nth lessThan_atLeast0 del: sum_workspace_thread.simps)
  also have "\<dots> = (\<Sum>j<sz. workspace ! j)" by (rule strided_partition[OF assms(1)])
  also have "\<dots> = sum_list workspace" using assms(3) by (simp add: sum_list_sum_nth lessThan_atLeast0)
  finally show ?thesis .
qed

lemma count_color_eq:
  "count_color m color colors = length (filter (\<lambda>j. colors ! j = color) [0..<m])"
proof -
  have "count_color m color colors = (\<Sum>j<m. if colors ! j = color then 1 else 0)"
    unfolding count_color_def
    by (subst kernel_count_color_part2_0) (simp_all add: kernel_count_color_part1_sum, simp add: kernel_count_color_part1_def)
  also have "\<dots> = length (filter (\<lambda>j. colors ! j = color) [0..<m])"
    by (induction m) simp_all
  finally show ?thesis .
qed

section \<open>Lemmas: one launch of the colouring kernel\<close>

lemma jpl_thread_flags:
  "kernel_jpl_thread m hash color1 color2 mtxIndL colors w row p flags =
    (fst flags \<and> \<not> (cmp_slot m color1 color2 mtxIndL w colors row p \<and> hash ! nat (mtxIndL ! (row * w + p)) \<le> hash ! row),
     snd flags \<and> \<not> (cmp_slot m color1 color2 mtxIndL w colors row p \<and> hash ! nat (mtxIndL ! (row * w + p)) \<ge> hash ! row))"
  by (cases flags) (auto simp: kernel_jpl_thread_def cmp_slot_def Let_def)

lemma fold_clear_flags:
  "fold (\<lambda>p fl. (fst fl \<and> \<not> A p, snd fl \<and> \<not> B p)) [0..<k] flags
   = (fst flags \<and> (\<forall>p<k. \<not> A p), snd flags \<and> (\<forall>p<k. \<not> B p))"
proof (induction k)
  case 0
  then show ?case by simp
next
  case (Suc k)
  have "(\<forall>p<Suc k. \<not> A p) = ((\<forall>p<k. \<not> A p) \<and> \<not> A k)" 
       "(\<forall>p<Suc k. \<not> B p) = ((\<forall>p<k. \<not> B p) \<and> \<not> B k)" 
    by (auto simp: less_Suc_eq)
  then show ?case by (simp add: Suc)
qed

lemma jpl_fold_flags:
  "fold (kernel_jpl_thread m hash color1 color2 mtxIndL colors w row) [0..<k] flags =
    (fst flags \<and> (\<forall>p<k. \<not> (cmp_slot m color1 color2 mtxIndL w colors row p \<and> hash ! nat (mtxIndL ! (row * w + p)) \<le> hash ! row)),
     snd flags \<and> (\<forall>p<k. \<not> (cmp_slot m color1 color2 mtxIndL w colors row p \<and> hash ! nat (mtxIndL ! (row * w + p)) \<ge> hash ! row)))"
proof -
  have "kernel_jpl_thread m hash color1 color2 mtxIndL colors w row
        = (\<lambda>p fl. (fst fl \<and> \<not> (cmp_slot m color1 color2 mtxIndL w colors row p \<and> hash ! nat (mtxIndL ! (row * w + p)) \<le> hash ! row),
                   snd fl \<and> \<not> (cmp_slot m color1 color2 mtxIndL w colors row p \<and> hash ! nat (mtxIndL ! (row * w + p)) \<ge> hash ! row)))"
    by (intro ext) (rule jpl_thread_flags)
  then show ?thesis by (simp only: fold_clear_flags)
qed

lemma set_compared_neighbours:
  "set (compared_neighbours m color1 color2 mtxIndL w colors row)
   = {nat (mtxIndL ! (row * w + p)) | p. p < w \<and> cmp_slot m color1 color2 mtxIndL w colors row p}"
  by (auto simp: compared_neighbours_def cmp_slot_def Let_def)

lemma jpl_flags_max:
  "snd (fold (kernel_jpl_thread m hash color1 color2 mtxIndL colors w row) [0..<w] (True, True))
   = strict_local_max hash (compared_neighbours m color1 color2 mtxIndL w colors row) row"
  unfolding jpl_fold_flags strict_local_max_def set_compared_neighbours
  by (auto simp: not_le)

lemma jpl_flags_min:
  "fst (fold (kernel_jpl_thread m hash color1 color2 mtxIndL colors w row) [0..<w] (True, True))
   = strict_local_min hash (compared_neighbours m color1 color2 mtxIndL w colors row) row"
  unfolding jpl_fold_flags strict_local_min_def set_compared_neighbours
  by (auto simp: not_le)

lemma kernel_jpl_row_eq:
  "row < length colors \<Longrightarrow>
   kernel_jpl_row m hash color1 color2 mtxIndL w colors row
   = colors[row := jpl_new_color m hash color1 color2 mtxIndL w colors row]"
  by (auto simp: kernel_jpl_row_def jpl_new_color_def jpl_flags_max jpl_flags_min Let_def)
     (metis list_update_id)


text \<open>compared neighbours only depend on which colours are in the candidate set\<close>

lemma compared_neighbours_cong:
  assumes "\<forall>c<m. (cs ! c = -1 \<or> cs ! c = color1 \<or> cs ! c = color2)
                = (cs' ! c = -1 \<or> cs' ! c = color1 \<or> cs' ! c = color2)"
  shows "compared_neighbours m color1 color2 mtxIndL w cs row
       = compared_neighbours m color1 color2 mtxIndL w cs' row"
proof -
  have "(let col = mtxIndL ! (row * w + p)
         in 0 \<le> col \<and> col < int m \<and> col \<noteq> int row \<and>
            (cs ! nat col = -1 \<or> cs ! nat col = color1 \<or> cs ! nat col = color2))
      = (let col = mtxIndL ! (row * w + p)
         in 0 \<le> col \<and> col < int m \<and> col \<noteq> int row \<and>
            (cs' ! nat col = -1 \<or> cs' ! nat col = color1 \<or> cs' ! nat col = color2))" for p
  proof (cases "0 \<le> mtxIndL ! (row * w + p) \<and> mtxIndL ! (row * w + p) < int m")
    case True
    then have "nat (mtxIndL ! (row * w + p)) < m" by linarith
    with assms show ?thesis unfolding Let_def by blast
  next
    case False
    then show ?thesis unfolding Let_def by blast
  qed
  then show ?thesis unfolding compared_neighbours_def by simp
qed

lemma jpl_new_color_cong:
  assumes "\<forall>c<m. (cs ! c = -1 \<or> cs ! c = color1 \<or> cs ! c = color2)
                = (cs' ! c = -1 \<or> cs' ! c = color1 \<or> cs' ! c = color2)"
    and "cs ! row = cs' ! row"
  shows "jpl_new_color m hash color1 color2 mtxIndL w cs row
       = jpl_new_color m hash color1 color2 mtxIndL w cs' row"
  unfolding jpl_new_color_def compared_neighbours_cong[OF assms(1)] assms(2) ..

lemma jpl_new_color_cases:
  "jpl_new_color m hash color1 color2 mtxIndL w cs row = cs ! row \<or>
   (cs ! row = -1 \<and> jpl_new_color m hash color1 color2 mtxIndL w cs row \<in> {color1, color2})"
  by (auto simp: jpl_new_color_def Let_def)

lemma kernel_jpl_prefix:
  assumes "length colors = m" "k \<le> m"
  shows "fold (\<lambda>row cs. kernel_jpl_row m hash color1 color2 mtxIndL w cs row) [0..<k] colors
         = map (\<lambda>i. if i < k then jpl_new_color m hash color1 color2 mtxIndL w colors i else colors ! i) [0..<m]"
  using assms(2)
proof (induction k)
  case 0
  then show ?case using assms(1) map_nth[of colors] by simp
next
  case (Suc k)
  let ?new = "jpl_new_color m hash color1 color2 mtxIndL w"
  let ?cs = "map (\<lambda>i. if i < k then ?new colors i else colors ! i) [0..<m]"
  have k: "k < m" using Suc.prems by simp
  have IH: "fold (\<lambda>row cs. kernel_jpl_row m hash color1 color2 mtxIndL w cs row) [0..<k] colors = ?cs"
    using Suc by simp
  have same: "\<forall>c<m. (?cs ! c = -1 \<or> ?cs ! c = color1 \<or> ?cs ! c = color2)
                = (colors ! c = -1 \<or> colors ! c = color1 \<or> colors ! c = color2)"
  proof (intro allI impI)
    fix c assume "c < m"
    then show "(?cs ! c = -1 \<or> ?cs ! c = color1 \<or> ?cs ! c = color2)
                = (colors ! c = -1 \<or> colors ! c = color1 \<or> colors ! c = color2)"
      using jpl_new_color_cases[of m hash color1 color2 mtxIndL w colors c] by auto
  qed
  have "?cs ! k = colors ! k" using k by simp
  with same have new: "?new ?cs k = ?new colors k" by (rule jpl_new_color_cong)
  have "fold (\<lambda>row cs. kernel_jpl_row m hash color1 color2 mtxIndL w cs row) [0..<Suc k] colors
        = kernel_jpl_row m hash color1 color2 mtxIndL w ?cs k"
    by (simp add: IH)
  also have "\<dots> = ?cs[k := ?new colors k]"
    using k by (simp add: kernel_jpl_row_eq new)
  also have "\<dots> = map (\<lambda>i. if i < Suc k then ?new colors i else colors ! i) [0..<m]"
    using k by (intro nth_equalityI) (auto simp: nth_list_update less_Suc_eq)
  finally show ?case .
qed

lemma kernel_jpl_snapshot:
  assumes "length colors = m"
  shows "kernel_jpl m hash color1 color2 mtxIndL w colors
         = map (jpl_new_color m hash color1 color2 mtxIndL w colors) [0..<m]"
  unfolding kernel_jpl_def kernel_jpl_prefix[OF assms order_refl] by simp

section \<open>Lemmas: the round loop\<close>

text \<open>fields not touched by a round\<close>

lemma JPL_round_static:
  "localNumberOfRows (mat (JPL_round_state rnd s)) = localNumberOfRows (mat s)"
  "numberOfNonzerosPerRow (mat (JPL_round_state rnd s)) = numberOfNonzerosPerRow (mat s)"
  "d_rowHash (mat (JPL_round_state rnd s)) = d_rowHash (mat s)"
  "d_mtxIndL (mat (JPL_round_state rnd s)) = d_mtxIndL (mat s)"
  by (simp_all add: JPL_round_state_def Let_def)

lemma JPL_round_fields:
  "nblocks (mat (JPL_round_state rnd s)) = nblocks (mat s) + 2"
  "rand_calls (JPL_round_state rnd s) = (if nblocks (mat s) < 8 then rand_calls s + 2 else rand_calls s)"
  "perm (mat (JPL_round_state rnd s))
     = kernel_jpl (localNumberOfRows (mat s)) (d_rowHash (mat s)) (round_color1 rnd s)
         (round_color2 rnd s) (d_mtxIndL (mat s)) (numberOfNonzerosPerRow (mat s)) (perm (mat s))"
  "sizes (mat (JPL_round_state rnd s))
     = sizes (mat s) @ [count_color (localNumberOfRows (mat s)) (round_color1 rnd s) (perm (mat (JPL_round_state rnd s))),
                        count_color (localNumberOfRows (mat s)) (round_color2 rnd s) (perm (mat (JPL_round_state rnd s)))]"
  "colored (JPL_round_state rnd s)
     = colored s + count_color (localNumberOfRows (mat s)) (round_color1 rnd s) (perm (mat (JPL_round_state rnd s)))
                 + count_color (localNumberOfRows (mat s)) (round_color2 rnd s) (perm (mat (JPL_round_state rnd s)))"
  "offsets (mat (JPL_round_state rnd s))
     = offsets (mat s) @ [colored s + count_color (localNumberOfRows (mat s)) (round_color1 rnd s) (perm (mat (JPL_round_state rnd s))),
                          colored (JPL_round_state rnd s)]"
  by (simp_all add: JPL_round_state_def Let_def)

lemma JPL_init_fields:
  "localNumberOfRows (mat (JPL_init A)) = localNumberOfRows A"
  "numberOfNonzerosPerRow (mat (JPL_init A)) = numberOfNonzerosPerRow A"
  "d_rowHash (mat (JPL_init A)) = d_rowHash A"
  "d_mtxIndL (mat (JPL_init A)) = d_mtxIndL A"
  "nblocks (mat (JPL_init A)) = 0"
  "rand_calls (JPL_init A) = 0"
  "colored (JPL_init A) = 0"
  "perm (mat (JPL_init A)) = replicate (localNumberOfRows A) (-1)"
  "sizes (mat (JPL_init A)) = []"
  "offsets (mat (JPL_init A)) = [0]"
  by (simp_all add: JPL_init_def)

lemma length_kernel_jpl_row [simp]:
  "length (kernel_jpl_row m hash c1 c2 ind w cs row) = length cs"
  by (simp add: kernel_jpl_row_def Let_def)

lemma length_kernel_jpl [simp]:
  "length (kernel_jpl m hash c1 c2 ind w cs) = length cs"
proof -
  have "length (fold (\<lambda>row cs. kernel_jpl_row m hash c1 c2 ind w cs row) rows cs) = length cs" for rows
    by (induction rows arbitrary: cs) simp_all
  then show ?thesis by (simp add: kernel_jpl_def)
qed

lemma book_init: "book (JPL_init A)"
  by (simp add: book_def JPL_init_fields)

lemma book_round: "book s \<Longrightarrow> book (JPL_round_state rnd s)"
  unfolding book_def
  by (simp add: JPL_round_fields JPL_round_static) (auto simp: min_def elim: evenE)

lemma round_colors_nominated:
  assumes "book s"
  shows "round_color1 rnd s = nominated rnd (nblocks (mat s))"
        "round_color2 rnd s = nominated rnd (nblocks (mat s) + 1)"
proof -
  have e: "even (nblocks (mat s))" and r: "rand_calls s = min (nblocks (mat s)) 8"
    using assms by (simp_all add: book_def)
  show "round_color1 rnd s = nominated rnd (nblocks (mat s))"
    using r by (simp add: round_color1_def nominated_def)
  have "nblocks (mat s) + 1 < 8" if "nblocks (mat s) < 8" 
    using that e by presburger
  then show "round_color2 rnd s = nominated rnd (nblocks (mat s) + 1)"
    using r by (auto simp: round_color2_def nominated_def)
qed

lemma nominated_inj:
  assumes "distinct_draws rnd" "nominated rnd i = nominated rnd j"
  shows "i = j"
proof -
  have d: "inj_on (\<lambda>i. rnd i mod 8) {0..<8}"
    using assms(1) unfolding distinct_draws_def by (simp add: distinct_map)
  have small: "nominated rnd i < 8" if "i < 8" for i using that by (simp add: nominated_def)
  have big: "nominated rnd i = int i" if "\<not> i < 8" for i using that by (simp add: nominated_def)
  consider "i < 8" "j < 8" | "i < 8" "\<not> j < 8" | "\<not> i < 8" "j < 8" | "\<not> i < 8" "\<not> j < 8" by blast
  then show ?thesis
  proof cases
    case 1
    then have eq: "(\<lambda>i. rnd i mod 8) i = (\<lambda>i. rnd i mod 8) j" using assms(2) by (simp add: nominated_def)
    have mi: "i \<in> {0..<8}" and mj: "j \<in> {0..<8}" using 1 by simp_all
    show ?thesis by (rule inj_onD[OF d eq mi mj])
  next
    case 2
    have "nominated rnd i < 8" "nominated rnd j = int j" using 2 small big by blast+
    then show ?thesis using 2 assms(2) by linarith
  next
    case 3
    have "nominated rnd j < 8" "nominated rnd i = int i" using 3 small big by blast+
    then show ?thesis using 3 assms(2) by linarith
  next
    case 4
    have "nominated rnd i = int i" "nominated rnd j = int j" using 4 big by blast+
    then show ?thesis using assms(2) by linarith
  qed
qed

lemma nominated_nonneg: "0 \<le> nominated rnd i"
  by (simp add: nominated_def)

lemma JPL_round_Inr:
  "JPL_round max_colors blocksize rnd s = Inr t \<longleftrightarrow>
     blocksize \<noteq> 0 \<and> nblocks (mat s) + 2 < max_colors \<and> t = JPL_round_state rnd s"
  by (auto simp: JPL_round_def)

lemma JPL_round_Inl:
  "JPL_round max_colors blocksize rnd s = Inl e \<longleftrightarrow>
     (blocksize = 0 \<and> e = DivisionByZero) \<or>
     (blocksize \<noteq> 0 \<and> \<not> nblocks (mat s) + 2 < max_colors \<and> e = OutOfBounds)"
  by (auto simp: JPL_round_def)

lemma JPL_loop_done:
  "colored s = localNumberOfRows (mat s) \<Longrightarrow> JPL_loop max_colors blocksize rnd s = Inr s"
  by (subst JPL_loop.simps) simp

lemma JPL_loop_step:
  assumes "colored s \<noteq> localNumberOfRows (mat s)" "blocksize \<noteq> 0"
    "nblocks (mat s) + 2 < max_colors"
  shows "JPL_loop max_colors blocksize rnd s
         = JPL_loop max_colors blocksize rnd (JPL_round_state rnd s)"
  using assms by (subst JPL_loop.simps) (simp add: JPL_round_def)

lemma JPL_loop_full:
  assumes "colored s \<noteq> localNumberOfRows (mat s)" "blocksize \<noteq> 0"
    "\<not> nblocks (mat s) + 2 < max_colors"
  shows "JPL_loop max_colors blocksize rnd s = Inl OutOfBounds"
  using assms by (subst JPL_loop.simps) (simp add: JPL_round_def)

lemma JPL_loop_no_launch:
  assumes "colored s \<noteq> localNumberOfRows (mat s)"
  shows "JPL_loop max_colors 0 rnd s = Inl DivisionByZero"
  using assms by (subst JPL_loop.simps) (simp add: JPL_round_def)

lemma JPL_loop_invariant:
  assumes run: "JPL_loop max_colors blocksize rnd s = Inr s'"
    and init: "I s"
    and step: "\<And>t. I t \<Longrightarrow> colored t \<noteq> localNumberOfRows (mat t) \<Longrightarrow> I (JPL_round_state rnd t)"
  shows "I s' \<and> colored s' = localNumberOfRows (mat s')"
  using run init step
proof (induction max_colors blocksize rnd s rule: JPL_loop.induct)
  case (1 max_colors blocksize rnd s)
  show ?case
  proof (cases "colored s \<noteq> localNumberOfRows (mat s)")
    case True
    from "1.prems"(1) True
    have c: "(case JPL_round max_colors blocksize rnd s of Inl e \<Rightarrow> Inl e
              | Inr t \<Rightarrow> JPL_loop max_colors blocksize rnd t) = Inr s'"
      by (subst (asm) JPL_loop.simps) simp
    then obtain t where t: "JPL_round max_colors blocksize rnd s = Inr t"
      and l: "JPL_loop max_colors blocksize rnd t = Inr s'"
      by (cases "JPL_round max_colors blocksize rnd s") simp_all
    have e: "t = JPL_round_state rnd s" using t by (simp add: JPL_round_Inr)
    have "I (JPL_round_state rnd s)" by (rule "1.prems"(3)[OF "1.prems"(2) True])
    then have "I t" using e by simp
    from "1.IH"[OF True t l this "1.prems"(3)] show ?thesis .
  next
    case False
    then have "s' = s" using "1.prems"(1) by (simp add: JPL_loop_done)
    then show ?thesis using "1.prems"(2) False by simp
  qed
qed

text \<open>a run that breaks, breaks in one of the two ways of a round\<close>

lemma JPL_loop_breaks:
  assumes "JPL_loop max_colors blocksize rnd s = Inl e"
  shows "(blocksize = 0 \<and> e = DivisionByZero) \<or> (blocksize \<noteq> 0 \<and> e = OutOfBounds)"
  using assms
proof (induction max_colors blocksize rnd s rule: JPL_loop.induct)
  case (1 max_colors blocksize rnd s)
  show ?case
  proof (cases "colored s \<noteq> localNumberOfRows (mat s)")
    case True
    from "1.prems" True
    have c: "(case JPL_round max_colors blocksize rnd s of Inl e \<Rightarrow> Inl e
              | Inr t \<Rightarrow> JPL_loop max_colors blocksize rnd t) = Inl e"
      by (subst (asm) JPL_loop.simps) simp
    show ?thesis
    proof (cases "JPL_round max_colors blocksize rnd s")
      case (Inl e')
      then have "e' = e" using c by simp
      then show ?thesis using Inl by (auto simp: JPL_round_Inl)
    next
      case (Inr t)
      then have "JPL_loop max_colors blocksize rnd t = Inl e" using c by simp
      from "1.IH"[OF True Inr this] show ?thesis .
    qed
  next
    case False
    then show ?thesis using "1.prems" by (simp add: JPL_loop_done)
  qed
qed

lemma filter_count_split:
  "\<forall>x\<in>set xs. (P x = (Q x \<or> R x \<or> S x)) \<and> \<not> (Q x \<and> R x) \<and> \<not> (Q x \<and> S x) \<and> \<not> (R x \<and> S x) \<Longrightarrow>
   length (filter P xs) = length (filter Q xs) + length (filter R xs) + length (filter S xs)"
  by (induction xs) auto

text \<open>one launch with two fresh colours\<close>

lemma kernel_jpl_nth:
  assumes "length colors = m" "i < m"
  shows "kernel_jpl m hash c1 c2 ind w colors ! i = jpl_new_color m hash c1 c2 ind w colors i"
  using assms by (simp add: kernel_jpl_snapshot)

lemma kernel_jpl_keeps:
  assumes "length colors = m" "i < m"
  shows "kernel_jpl m hash c1 c2 ind w colors ! i = colors ! i \<or>
         (colors ! i = -1 \<and> kernel_jpl m hash c1 c2 ind w colors ! i \<in> {c1, c2})"
  using jpl_new_color_cases[of m hash c1 c2 ind w colors i] assms
  by (simp add: kernel_jpl_nth)

lemma kernel_jpl_count:
  fixes hash ind :: "int list" and w :: nat
  assumes len: "length colors = m"
    and fresh: "\<forall>i<m. colors ! i \<noteq> c1 \<and> colors ! i \<noteq> c2"
    and ne: "c1 \<noteq> c2" "c1 \<noteq> -1" "c2 \<noteq> -1"
  defines "cs \<equiv> kernel_jpl m hash c1 c2 ind w colors"
  shows "length (filter (\<lambda>i. cs ! i \<noteq> -1) [0..<m])
         = length (filter (\<lambda>i. colors ! i \<noteq> -1) [0..<m])
           + count_color m c1 cs + count_color m c2 cs"
  unfolding count_color_eq
proof (rule filter_count_split, intro ballI)
  fix i assume "i \<in> set [0..<m]"
  then have i: "i < m" by simp
  have k: "cs ! i = colors ! i \<or> (colors ! i = -1 \<and> cs ! i \<in> {c1, c2})"
    unfolding cs_def using len i by (rule kernel_jpl_keeps)
  show "((cs ! i \<noteq> -1) = (colors ! i \<noteq> -1 \<or> cs ! i = c1 \<or> cs ! i = c2)) \<and>
        \<not> (colors ! i \<noteq> -1 \<and> cs ! i = c1) \<and> \<not> (colors ! i \<noteq> -1 \<and> cs ! i = c2) \<and>
        \<not> (cs ! i = c1 \<and> cs ! i = c2)"
    using k fresh i ne by auto
qed

lemma color_inv_init: "color_inv rnd (JPL_init A)"
proof -
  have "filter (\<lambda>i. replicate (localNumberOfRows A) (-1::int) ! i \<noteq> -1) [0..<localNumberOfRows A] = []"
    by (simp add: filter_empty_conv)
  then show ?thesis by (simp add: color_inv_def book_init JPL_init_fields)
qed

lemma color_inv_fresh:
  assumes "color_inv rnd s" "distinct_draws rnd" "nblocks (mat s) \<le> k"
  shows "\<forall>i < localNumberOfRows (mat s). perm (mat s) ! i \<noteq> nominated rnd k"
proof (intro allI impI)
  fix i assume i: "i < localNumberOfRows (mat s)"
  show "perm (mat s) ! i \<noteq> nominated rnd k"
  proof
    assume eq: "perm (mat s) ! i = nominated rnd k"
    then have "perm (mat s) ! i \<noteq> -1" using nominated_nonneg[of rnd k] by simp
    then obtain j where j: "j < nblocks (mat s)" "perm (mat s) ! i = nominated rnd j"
      using assms(1) i unfolding color_inv_def by blast
    then have "j = k" using nominated_inj[OF assms(2)] eq by simp
    then show False using j(1) assms(3) by simp
  qed
qed

lemma color_inv_round:
  assumes inv: "color_inv rnd s" and dd: "distinct_draws rnd"
  shows "color_inv rnd (JPL_round_state rnd s)"
proof -
  let ?A = "mat s" let ?m = "localNumberOfRows ?A" let ?nb = "nblocks ?A"
  let ?c1 = "round_color1 rnd s" let ?c2 = "round_color2 rnd s"
  let ?cs = "perm (mat (JPL_round_state rnd s))"
  have bk: "book s" using inv by (simp add: color_inv_def)
  have len: "length (perm ?A) = ?m" using bk by (simp add: book_def)
  have c1: "?c1 = nominated rnd ?nb" and c2: "?c2 = nominated rnd (?nb + 1)"
    using round_colors_nominated[OF bk] by simp_all
  have fresh: "\<forall>i<?m. perm ?A ! i \<noteq> ?c1 \<and> perm ?A ! i \<noteq> ?c2"
    using color_inv_fresh[OF inv dd, of ?nb] color_inv_fresh[OF inv dd, of "?nb + 1"] c1 c2 by simp
  have ne: "?c1 \<noteq> ?c2" "?c1 \<noteq> -1" "?c2 \<noteq> -1"
    using nominated_inj[OF dd, of ?nb "?nb + 1"] nominated_nonneg[of rnd ?nb]
      nominated_nonneg[of rnd "?nb + 1"] c1 c2 by auto
  have cs: "?cs = kernel_jpl ?m (d_rowHash ?A) ?c1 ?c2 (d_mtxIndL ?A) (numberOfNonzerosPerRow ?A) (perm ?A)"
    by (simp add: JPL_round_fields)
  have cnt: "length (filter (\<lambda>i. ?cs ! i \<noteq> -1) [0..<?m])
         = length (filter (\<lambda>i. perm ?A ! i \<noteq> -1) [0..<?m])
           + count_color ?m ?c1 ?cs + count_color ?m ?c2 ?cs"
    unfolding cs using len fresh ne by (rule kernel_jpl_count)
  have used: "?cs ! i = -1 \<or> (\<exists>j < ?nb + 2. ?cs ! i = nominated rnd j)" if i: "i < ?m" for i
  proof -
    have k: "?cs ! i = perm ?A ! i \<or> (perm ?A ! i = -1 \<and> ?cs ! i \<in> {?c1, ?c2})"
      unfolding cs using len i by (rule kernel_jpl_keeps)
    have old: "perm ?A ! i = -1 \<or> (\<exists>j < ?nb. perm ?A ! i = nominated rnd j)"
      using inv i by (simp add: color_inv_def)
    from k show ?thesis
    proof
      assume "?cs ! i = perm ?A ! i"
      with old show ?thesis by (metis trans_less_add1)
    next
      assume "perm ?A ! i = -1 \<and> ?cs ! i \<in> {?c1, ?c2}"
      then have "?cs ! i = nominated rnd ?nb \<or> ?cs ! i = nominated rnd (?nb + 1)"
        using c1 c2 by auto
      then show ?thesis by (metis add_less_cancel_left less_add_same_cancel1 one_less_numeral_iff semiring_norm(76) zero_less_numeral)
    qed
  qed
  have "colored (JPL_round_state rnd s) = length (filter (\<lambda>i. ?cs ! i \<noteq> -1) [0..<?m])"
    using inv cnt by (simp add: JPL_round_fields(5) color_inv_def)
  then show ?thesis
    unfolding color_inv_def using book_round[OF bk] used
    by (simp add: JPL_round_static JPL_round_fields(1))
qed

lemma compared_neighbours_iff:
  assumes "r < localNumberOfRows A"
  shows "c \<in> set (compared_neighbours (localNumberOfRows A) c1 c2 (d_mtxIndL A)
                   (numberOfNonzerosPerRow A) colors r)
         \<longleftrightarrow> stored_entry A r c \<and> (colors ! c = -1 \<or> colors ! c = c1 \<or> colors ! c = c2)"
proof
  assume "c \<in> set (compared_neighbours (localNumberOfRows A) c1 c2 (d_mtxIndL A)
                   (numberOfNonzerosPerRow A) colors r)"
  then obtain p where p: "p < numberOfNonzerosPerRow A"
      "c = nat (d_mtxIndL A ! (r * numberOfNonzerosPerRow A + p))"
      "cmp_slot (localNumberOfRows A) c1 c2 (d_mtxIndL A) (numberOfNonzerosPerRow A) colors r p"
    unfolding set_compared_neighbours by blast
  let ?col = "d_mtxIndL A ! (r * numberOfNonzerosPerRow A + p)"
  have col: "0 \<le> ?col" "?col < int (localNumberOfRows A)" "?col \<noteq> int r"
       "colors ! nat ?col = -1 \<or> colors ! nat ?col = c1 \<or> colors ! nat ?col = c2"
    using p(3) by (simp_all add: cmp_slot_def Let_def)
  have "int c = ?col" using p(2) col(1) by simp
  moreover have "c < localNumberOfRows A" using p(2) col(1,2) by linarith
  moreover have "c \<noteq> r" using p(2) col(1,3) by linarith
  ultimately show "stored_entry A r c \<and> (colors ! c = -1 \<or> colors ! c = c1 \<or> colors ! c = c2)"
    using assms p(1,2) col(4) unfolding stored_entry_def by auto
next
  assume a: "stored_entry A r c \<and> (colors ! c = -1 \<or> colors ! c = c1 \<or> colors ! c = c2)"
  then obtain p where p: "p < numberOfNonzerosPerRow A"
      "d_mtxIndL A ! (r * numberOfNonzerosPerRow A + p) = int c"
    and c: "c < localNumberOfRows A" "c \<noteq> r"
    unfolding stored_entry_def by blast
  have "cmp_slot (localNumberOfRows A) c1 c2 (d_mtxIndL A) (numberOfNonzerosPerRow A) colors r p"
    using p c a by (simp add: cmp_slot_def Let_def)
  moreover have "c = nat (d_mtxIndL A ! (r * numberOfNonzerosPerRow A + p))" using p(2) by simp
  ultimately show "c \<in> set (compared_neighbours (localNumberOfRows A) c1 c2 (d_mtxIndL A)
                   (numberOfNonzerosPerRow A) colors r)"
    unfolding set_compared_neighbours using p(1) by blast
qed

lemma jpl_new_color_c1:
  assumes "jpl_new_color m hash c1 c2 ind w colors r = c1" "colors ! r = -1" "c1 \<noteq> c2" "c1 \<noteq> -1"
  shows "strict_local_max hash (compared_neighbours m c1 c2 ind w colors r) r"
  using assms by (auto simp: jpl_new_color_def Let_def split: if_splits)

lemma jpl_new_color_c2:
  assumes "jpl_new_color m hash c1 c2 ind w colors r = c2" "colors ! r = -1" "c1 \<noteq> c2" "c2 \<noteq> -1"
  shows "strict_local_min hash (compared_neighbours m c1 c2 ind w colors r) r"
  using assms by (auto simp: jpl_new_color_def Let_def split: if_splits)

lemma kernel_jpl_proper:
  fixes A :: SparseMatrix
  defines "m \<equiv> localNumberOfRows A"
  assumes len: "length colors = m"
    and fresh: "\<forall>i<m. colors ! i \<noteq> c1 \<and> colors ! i \<noteq> c2"
    and ne: "c1 \<noteq> c2" "c1 \<noteq> -1" "c2 \<noteq> -1"
    and sym: "symmetric_adjacency A"
    and pp: "partial_proper A colors"
  shows "partial_proper A (kernel_jpl m (d_rowHash A) c1 c2 (d_mtxIndL A) (numberOfNonzerosPerRow A) colors)"
  unfolding partial_proper_def
proof (intro allI impI)
  let ?cs = "kernel_jpl m (d_rowHash A) c1 c2 (d_mtxIndL A) (numberOfNonzerosPerRow A) colors"
  let ?new = "jpl_new_color m (d_rowHash A) c1 c2 (d_mtxIndL A) (numberOfNonzerosPerRow A) colors"
  let ?nbs = "compared_neighbours m c1 c2 (d_mtxIndL A) (numberOfNonzerosPerRow A) colors"
  fix r c
  assume r: "r < localNumberOfRows A" and c: "c < localNumberOfRows A"
    and st: "stored_entry A r c" and cr: "?cs ! r \<noteq> -1" and cc: "?cs ! c \<noteq> -1"
  have st': "stored_entry A c r" using sym r c st unfolding symmetric_adjacency_def by blast
  have nr: "?cs ! r = ?new r" and nc: "?cs ! c = ?new c"
    using len r c by (simp_all add: kernel_jpl_nth m_def)
  have kr: "?cs ! r = colors ! r \<or> (colors ! r = -1 \<and> ?cs ! r \<in> {c1, c2})"
    using len r unfolding m_def by (intro kernel_jpl_keeps) simp_all
  have kc: "?cs ! c = colors ! c \<or> (colors ! c = -1 \<and> ?cs ! c \<in> {c1, c2})"
    using len c unfolding m_def by (intro kernel_jpl_keeps) simp_all
  show "?cs ! r \<noteq> ?cs ! c"
  proof
    assume eq: "?cs ! r = ?cs ! c"
    consider (old) "colors ! r \<noteq> -1" "colors ! c \<noteq> -1"
      | (mixed1) "colors ! r = -1" "colors ! c \<noteq> -1"
      | (mixed2) "colors ! r \<noteq> -1" "colors ! c = -1"
      | (new) "colors ! r = -1" "colors ! c = -1" by blast
    then show False
    proof cases
      case old
      then have "?cs ! r = colors ! r" "?cs ! c = colors ! c" using kr kc by auto
      then show False using pp r c st old eq unfolding partial_proper_def by metis
    next
      case mixed1
      then have "?cs ! c = colors ! c" "?cs ! r \<in> {c1, c2}" using kr kc cr by auto
      then show False using fresh c eq unfolding m_def by auto
    next
      case mixed2
      then have "?cs ! r = colors ! r" "?cs ! c \<in> {c1, c2}" using kr kc cc by auto
      then show False using fresh r eq unfolding m_def by auto
    next
      case new
      have cin: "c \<in> set (?nbs r)" and rin: "r \<in> set (?nbs c)"
        unfolding m_def using compared_neighbours_iff[OF r] compared_neighbours_iff[OF c] st st' new
        by simp_all
      have "?cs ! r \<in> {c1, c2}" using kr new cr by auto
      then show False
      proof
        assume "?cs ! r = c1"
        then have "?new r = c1" "?new c = c1" using nr nc eq by simp_all
        then have "strict_local_max (d_rowHash A) (?nbs r) r" "strict_local_max (d_rowHash A) (?nbs c) c"
          using new ne by (auto intro: jpl_new_color_c1)
        then show False using cin rin unfolding strict_local_max_def by fastforce
      next
        assume "?cs ! r \<in> {c2}"
        then have "?new r = c2" "?new c = c2" using nr nc eq by simp_all
        then have "strict_local_min (d_rowHash A) (?nbs r) r" "strict_local_min (d_rowHash A) (?nbs c) c"
          using new ne by (auto intro: jpl_new_color_c2)
        then show False using cin rin unfolding strict_local_min_def by fastforce
      qed
    qed
  qed
qed

lemma kernel_jpl_progress:
  fixes A :: SparseMatrix
  defines "m \<equiv> localNumberOfRows A"
  assumes len: "length colors = m"
    and fresh: "\<forall>i<m. colors ! i \<noteq> c1 \<and> colors ! i \<noteq> c2"
    and ties: "no_hash_ties A"
    and unc: "\<exists>i<m. colors ! i = -1"
  shows "\<exists>i<m. kernel_jpl m (d_rowHash A) c1 c2 (d_mtxIndL A) (numberOfNonzerosPerRow A) colors ! i = c1"
proof -
  let ?U = "{i. i < m \<and> colors ! i = -1}"
  let ?h = "\<lambda>i. d_rowHash A ! i"
  have fin: "finite (?h ` ?U)" and nonempty: "?h ` ?U \<noteq> {}" using unc by auto
  from Max_in[OF fin nonempty] obtain i where i: "i < m" "colors ! i = -1" "?h i = Max (?h ` ?U)"
    by auto
  have mx: "?h j \<le> ?h i" if "j < m" "colors ! j = -1" for j
    using Max_ge[OF fin, of "?h j"] that i(3) by auto
  have "strict_local_max (d_rowHash A)
          (compared_neighbours m c1 c2 (d_mtxIndL A) (numberOfNonzerosPerRow A) colors i) i"
    unfolding strict_local_max_def
  proof
    fix c assume "c \<in> set (compared_neighbours m c1 c2 (d_mtxIndL A) (numberOfNonzerosPerRow A) colors i)"
    then have st: "stored_entry A i c" and col: "colors ! c = -1 \<or> colors ! c = c1 \<or> colors ! c = c2"
      using compared_neighbours_iff[of i A c c1 c2 colors] i(1) unfolding m_def by simp_all
    have cm: "c < m" using st unfolding stored_entry_def m_def by simp
    then have "colors ! c = -1" using col fresh by auto
    then have "?h c \<le> ?h i" using mx cm by simp
    moreover have "?h i \<noteq> ?h c" using ties st i(1) cm unfolding no_hash_ties_def m_def by blast
    ultimately show "?h c < ?h i" by simp
  qed
  then have "jpl_new_color m (d_rowHash A) c1 c2 (d_mtxIndL A) (numberOfNonzerosPerRow A) colors i = c1"
    using i(2) by (simp add: jpl_new_color_def)
  then show ?thesis using i(1) len by (auto simp: kernel_jpl_nth)
qed

lemma stored_entry_static:
  assumes "localNumberOfRows B = localNumberOfRows A"
    "numberOfNonzerosPerRow B = numberOfNonzerosPerRow A" "d_mtxIndL B = d_mtxIndL A"
  shows "stored_entry B = stored_entry A"
  by (intro ext) (simp add: stored_entry_def assms)

lemma stored_entry_round [simp]: "stored_entry (mat (JPL_round_state rnd s)) = stored_entry (mat s)"
  by (rule stored_entry_static) (simp_all add: JPL_round_static)

lemma stored_entry_init [simp]: "stored_entry (mat (JPL_init A)) = stored_entry A"
  by (rule stored_entry_static) (simp_all add: JPL_init_fields)

lemma no_hash_ties_round [simp]: "no_hash_ties (mat (JPL_round_state rnd s)) = no_hash_ties (mat s)"
  by (simp add: no_hash_ties_def JPL_round_static)

lemma no_hash_ties_init [simp]: "no_hash_ties (mat (JPL_init A)) = no_hash_ties A"
  by (simp add: no_hash_ties_def JPL_init_fields)

lemma symmetric_adjacency_round [simp]:
  "symmetric_adjacency (mat (JPL_round_state rnd s)) = symmetric_adjacency (mat s)"
  by (simp add: symmetric_adjacency_def JPL_round_static)

lemma symmetric_adjacency_init [simp]:
  "symmetric_adjacency (mat (JPL_init A)) = symmetric_adjacency A"
  by (simp add: symmetric_adjacency_def JPL_init_fields)

lemma round_fresh:
  assumes inv: "color_inv rnd s" and dd: "distinct_draws rnd"
  shows "\<forall>i<localNumberOfRows (mat s).
           perm (mat s) ! i \<noteq> round_color1 rnd s \<and> perm (mat s) ! i \<noteq> round_color2 rnd s"
    "round_color1 rnd s \<noteq> round_color2 rnd s" "round_color1 rnd s \<noteq> -1" "round_color2 rnd s \<noteq> -1"
proof -
  let ?nb = "nblocks (mat s)"
  have bk: "book s" using inv by (simp add: color_inv_def)
  have c1: "round_color1 rnd s = nominated rnd ?nb" and c2: "round_color2 rnd s = nominated rnd (?nb + 1)"
    using round_colors_nominated[OF bk] by simp_all
  show "\<forall>i<localNumberOfRows (mat s).
           perm (mat s) ! i \<noteq> round_color1 rnd s \<and> perm (mat s) ! i \<noteq> round_color2 rnd s"
    using color_inv_fresh[OF inv dd, of ?nb] color_inv_fresh[OF inv dd, of "?nb + 1"] c1 c2 by simp
  show "round_color1 rnd s \<noteq> round_color2 rnd s" "round_color1 rnd s \<noteq> -1" "round_color2 rnd s \<noteq> -1"
    using nominated_inj[OF dd, of ?nb "?nb + 1"] nominated_nonneg[of rnd ?nb]
      nominated_nonneg[of rnd "?nb + 1"] c1 c2 by auto
qed

lemma proper_round:
  assumes inv: "color_inv rnd s" and dd: "distinct_draws rnd"
    and sym: "symmetric_adjacency (mat s)" and pp: "partial_proper (mat s) (perm (mat s))"
  shows "partial_proper (mat (JPL_round_state rnd s)) (perm (mat (JPL_round_state rnd s)))"
proof -
  have len: "length (perm (mat s)) = localNumberOfRows (mat s)"
    using inv by (simp add: color_inv_def book_def)
  have "partial_proper (mat s) (perm (mat (JPL_round_state rnd s)))"
    unfolding JPL_round_fields(3)
    by (rule kernel_jpl_proper[OF len round_fresh[OF inv dd] sym pp])
  then show ?thesis by (simp add: partial_proper_def JPL_round_static)
qed

lemma partial_proper_init: "partial_proper (mat (JPL_init A)) (perm (mat (JPL_init A)))"
  by (simp add: partial_proper_def JPL_init_fields)

lemma colored_le:
  "color_inv rnd s \<Longrightarrow> colored s \<le> localNumberOfRows (mat s)"
proof -
  assume "color_inv rnd s"
  then have "colored s = length (filter (\<lambda>i. perm (mat s) ! i \<noteq> -1) [0..<localNumberOfRows (mat s)])"
    by (simp add: color_inv_def)
  also have "\<dots> \<le> length [0..<localNumberOfRows (mat s)]" by (rule length_filter_le)
  finally show ?thesis by simp
qed

lemma all_colored_iff:
  "all_colored m colors \<longleftrightarrow> length (filter (\<lambda>i. colors ! i \<noteq> -1) [0..<m]) = m"
proof -
  have "length (filter P xs) = length xs \<longleftrightarrow> (\<forall>i\<in>set xs. P i)" for P :: "nat \<Rightarrow> bool" and xs
  proof
    assume l: "length (filter P xs) = length xs"
    show "\<forall>i\<in>set xs. P i"
    proof (rule ccontr)
      assume "\<not> (\<forall>i\<in>set xs. P i)"
      then obtain x where "x \<in> set xs" "\<not> P x" by blast
      then have "length (filter P xs) < length xs" by (rule length_filter_less)
      with l show False by simp
    qed
  next
    assume "\<forall>i\<in>set xs. P i"
    then have "filter P xs = xs" by (rule filter_True)
    then show "length (filter P xs) = length xs" by simp
  qed
  from this[of "\<lambda>i. colors ! i \<noteq> -1" "[0..<m]"] show ?thesis by (auto simp: all_colored_def)
qed

lemma round_progress:
  assumes inv: "color_inv rnd s" and dd: "distinct_draws rnd"
    and ties: "no_hash_ties (mat s)" and ne: "colored s \<noteq> localNumberOfRows (mat s)"
  shows "colored s < colored (JPL_round_state rnd s)"
proof -
  let ?m = "localNumberOfRows (mat s)"
  have len: "length (perm (mat s)) = ?m" using inv by (simp add: color_inv_def book_def)
  have "\<not> all_colored ?m (perm (mat s))"
    using inv ne unfolding all_colored_iff color_inv_def by simp
  then have unc: "\<exists>i<?m. perm (mat s) ! i = -1" by (simp add: all_colored_def)
  from kernel_jpl_progress[OF len round_fresh(1)[OF inv dd] ties unc]
  obtain i where i: "i < ?m" "perm (mat (JPL_round_state rnd s)) ! i = round_color1 rnd s"
    unfolding JPL_round_fields(3) by blast
  then have "i \<in> set (filter (\<lambda>j. perm (mat (JPL_round_state rnd s)) ! j = round_color1 rnd s) [0..<?m])"
    by simp
  then have "0 < count_color ?m (round_color1 rnd s) (perm (mat (JPL_round_state rnd s)))"
    unfolding count_color_eq by (metis length_pos_if_in_set)
  then show ?thesis by (simp add: JPL_round_fields(5))
qed

lemma JPL_loop_terminates:
  assumes "color_inv rnd s" "distinct_draws rnd" "no_hash_ties (mat s)"
    and "blocksize \<noteq> 0"
    and "nblocks (mat s) + 2 * (localNumberOfRows (mat s) - colored s) < max_colors"
  shows "\<exists>s'. JPL_loop max_colors blocksize rnd s = Inr s' \<and>
              nblocks (mat s') \<le> nblocks (mat s) + 2 * (localNumberOfRows (mat s) - colored s)"
  using assms
proof (induction "localNumberOfRows (mat s) - colored s" arbitrary: s rule: less_induct)
  case less
  show ?case
  proof (cases "colored s = localNumberOfRows (mat s)")
    case True
    then have "JPL_loop max_colors blocksize rnd s = Inr s" by (rule JPL_loop_done)
    then show ?thesis by simp
  next
    case False
    let ?t = "JPL_round_state rnd s"
    have inv': "color_inv rnd ?t" using less.prems by (simp add: color_inv_round)
    have lt: "colored s < colored ?t" using less.prems False by (simp add: round_progress)
    have le: "colored ?t \<le> localNumberOfRows (mat s)"
      using colored_le[OF inv'] by (simp add: JPL_round_static)
    have cap: "nblocks (mat s) + 2 < max_colors" using less.prems(5) lt le by linarith
    have cap': "nblocks (mat ?t) + 2 * (localNumberOfRows (mat ?t) - colored ?t) < max_colors"
      using less.prems(5) lt le by (simp add: JPL_round_static JPL_round_fields(1))
    have "localNumberOfRows (mat ?t) - colored ?t < localNumberOfRows (mat s) - colored s"
      using lt le by (simp add: JPL_round_static)
    from less.hyps[OF this inv' less.prems(2) _ less.prems(4) cap'] less.prems(3)
    obtain s' where s': "JPL_loop max_colors blocksize rnd ?t = Inr s'"
      "nblocks (mat s') \<le> nblocks (mat ?t) + 2 * (localNumberOfRows (mat ?t) - colored ?t)"
      by (auto simp: no_hash_ties_round)
    have "JPL_loop max_colors blocksize rnd s = Inr s'"
      using s'(1) by (simp add: JPL_loop_step[OF False less.prems(4) cap])
    moreover have "nblocks (mat s') \<le> nblocks (mat s) + 2 * (localNumberOfRows (mat s) - colored s)"
      using s'(2) lt le by (simp add: JPL_round_static JPL_round_fields(1))
    ultimately show ?thesis by blast
  qed
qed

lemma JPL_loop_result:
  assumes run: "JPL_loop max_colors blocksize rnd (JPL_init A) = Inr s" and dd: "distinct_draws rnd"
  shows "color_inv rnd s" "colored s = localNumberOfRows A" "localNumberOfRows (mat s) = localNumberOfRows A"
    "numberOfNonzerosPerRow (mat s) = numberOfNonzerosPerRow A" "d_mtxIndL (mat s) = d_mtxIndL A"
    "d_rowHash (mat s) = d_rowHash A"
proof -
  let ?I = "\<lambda>t. color_inv rnd t \<and> localNumberOfRows (mat t) = localNumberOfRows A \<and>
      numberOfNonzerosPerRow (mat t) = numberOfNonzerosPerRow A \<and> d_mtxIndL (mat t) = d_mtxIndL A \<and>
      d_rowHash (mat t) = d_rowHash A"
  have "?I s \<and> colored s = localNumberOfRows (mat s)"
  proof (rule JPL_loop_invariant[OF run, where I = ?I])
    show "?I (JPL_init A)" by (simp add: color_inv_init JPL_init_fields)
  next
    fix t assume "?I t"
    then show "?I (JPL_round_state rnd t)" using dd by (simp add: color_inv_round JPL_round_static)
  qed
  then show "color_inv rnd s" "colored s = localNumberOfRows A" "localNumberOfRows (mat s) = localNumberOfRows A"
    "numberOfNonzerosPerRow (mat s) = numberOfNonzerosPerRow A" "d_mtxIndL (mat s) = d_mtxIndL A"
    "d_rowHash (mat s) = d_rowHash A"
    by simp_all
qed

lemma JPL_loop_all_colored:
  assumes run: "JPL_loop max_colors blocksize rnd (JPL_init A) = Inr s" and dd: "distinct_draws rnd"
  shows "all_colored (localNumberOfRows A) (perm (mat s))"
  using JPL_loop_result[OF run dd] unfolding all_colored_iff color_inv_def by simp

lemma JPL_loop_sizes:
  assumes run: "JPL_loop max_colors blocksize rnd (JPL_init A) = Inr s"
  shows "sum_list (sizes (mat s)) = localNumberOfRows A"
proof -
  let ?I = "\<lambda>t. book t \<and> localNumberOfRows (mat t) = localNumberOfRows A"
  have "?I s \<and> colored s = localNumberOfRows (mat s)"
  proof (rule JPL_loop_invariant[OF run, where I = ?I])
    show "?I (JPL_init A)" by (simp add: book_init JPL_init_fields)
  next
    fix t assume "?I t"
    then show "?I (JPL_round_state rnd t)" by (simp add: book_round JPL_round_static)
  qed
  then show ?thesis by (simp add: book_def)
qed

lemma JPL_loop_proper:
  assumes run: "JPL_loop max_colors blocksize rnd (JPL_init A) = Inr s" and dd: "distinct_draws rnd"
    and sym: "symmetric_adjacency A"
  shows "proper_coloring A (perm (mat s))"
proof -
  let ?I = "\<lambda>t. color_inv rnd t \<and> symmetric_adjacency (mat t) \<and> partial_proper (mat t) (perm (mat t))
      \<and> localNumberOfRows (mat t) = localNumberOfRows A \<and> stored_entry (mat t) = stored_entry A"
  have "?I s \<and> colored s = localNumberOfRows (mat s)"
  proof (rule JPL_loop_invariant[OF run, where I = ?I])
    show "?I (JPL_init A)" using sym partial_proper_init[of A] by (simp add: color_inv_init JPL_init_fields(1))
  next
    fix t assume "?I t"
    then show "?I (JPL_round_state rnd t)" using dd by (simp add: color_inv_round proper_round JPL_round_static)
  qed
  then have pp: "partial_proper (mat s) (perm (mat s))"
    and st: "stored_entry (mat s) = stored_entry A" and m: "localNumberOfRows (mat s) = localNumberOfRows A"
    by simp_all
  have ac: "all_colored (localNumberOfRows A) (perm (mat s))" by (rule JPL_loop_all_colored[OF run dd])
  show ?thesis
    unfolding proper_coloring_def
    using pp ac unfolding partial_proper_def all_colored_def st m by blast
qed

section \<open>Lemmas: runs on the example inputs\<close>

lemma adjacency_sel [simp]:
  "localNumberOfRows (adjacency m w hash ind) = m"
  "numberOfNonzerosPerRow (adjacency m w hash ind) = w"
  "d_rowHash (adjacency m w hash ind) = hash"
  "d_mtxIndL (adjacency m w hash ind) = ind"
  by (simp_all add: adjacency_def)

lemmas jpl_eval = jpl_new_color_def compared_neighbours_def strict_local_max_def
  strict_local_min_def Let_def upt_rec[of _ "numeral _"] upt_rec[of _ "Suc _"] 

text \<open>the launch configuration\<close>

lemma next_power_of_two_pos: "0 < next_power_of_two b"
  by (simp add: next_power_of_two_def Let_def)

lemma shift_to_valid_pos:
  assumes "0 < b" "w \<le> 512"
  shows "0 < shift_to_valid w b"
  using assms
proof (induction w b rule: shift_to_valid.induct)
  case (1 w blocksize)
  show ?case
  proof (cases "512 < blocksize * w")
    case True
    have "blocksize \<noteq> 1" using True "1.prems"(2) by auto
    then have "2 \<le> blocksize" using "1.prems"(1) by simp
    then have "0 < drop_bit 1 blocksize" by (simp add: drop_bit_eq_div)
    from "1.IH"[OF True this "1.prems"(2)] True show ?thesis
      by (subst shift_to_valid.simps) simp
  next
    case False
    then show ?thesis using "1.prems"(1) by (subst shift_to_valid.simps) simp
  qed
qed

lemma JPL_blocksize_pos:
  assumes "w \<le> 512"
  shows "JPL_blocksize w \<noteq> 0"
  using shift_to_valid_pos[OF next_power_of_two_pos assms] by (simp add: JPL_blocksize_def)

lemma JPL_blocksize_wide:
  assumes "512 < w"
  shows "JPL_blocksize w = 0"
proof -
  have "512 div w = 0" using assms by simp
  then have "next_power_of_two (512 div w) = 1" by (simp add: next_power_of_two_def)
  moreover have "shift_to_valid w 1 = shift_to_valid w 0"
    using assms by (subst shift_to_valid.simps) simp
  moreover have "shift_to_valid w 0 = 0" by (subst shift_to_valid.simps) simp
  ultimately show ?thesis by (simp add: JPL_blocksize_def)
qed

text \<open>one round on a state given by its fields\<close>

lemma JPL_round_eval:
  assumes "localNumberOfRows (mat s) = m" "numberOfNonzerosPerRow (mat s) = w"
    "d_rowHash (mat s) = hash" "d_mtxIndL (mat s) = ind"
    "perm (mat s) = cs" "length cs = m" "round_color1 rnd s = c1" "round_color2 rnd s = c2"
    "map (jpl_new_color m hash c1 c2 ind w cs) [0..<m] = cs'"
  shows "perm (mat (JPL_round_state rnd s)) = cs'"
    "colored (JPL_round_state rnd s) = colored s + length (filter (\<lambda>j. cs' ! j = c1) [0..<m])
        + length (filter (\<lambda>j. cs' ! j = c2) [0..<m])"
    "sizes (mat (JPL_round_state rnd s)) = sizes (mat s) @ [length (filter (\<lambda>j. cs' ! j = c1) [0..<m]),
         length (filter (\<lambda>j. cs' ! j = c2) [0..<m])]"
proof -
  show p: "perm (mat (JPL_round_state rnd s)) = cs'"
    using assms by (simp add: JPL_round_fields(3) kernel_jpl_snapshot)
  show "colored (JPL_round_state rnd s) = colored s + length (filter (\<lambda>j. cs' ! j = c1) [0..<m])
        + length (filter (\<lambda>j. cs' ! j = c2) [0..<m])"
    unfolding JPL_round_fields(5) p count_color_eq using assms by simp
  show "sizes (mat (JPL_round_state rnd s)) = sizes (mat s) @ [length (filter (\<lambda>j. cs' ! j = c1) [0..<m]),
         length (filter (\<lambda>j. cs' ! j = c2) [0..<m])]"
    unfolding JPL_round_fields(4) p count_color_eq using assms by simp
qed

lemma state_at_Suc: "JPL_state_at rnd A (Suc k) = JPL_round_state rnd (JPL_state_at rnd A k)"
  by (simp add: JPL_state_at_def)

lemma state_at_0: "JPL_state_at rnd A 0 = JPL_init A"
  by (simp add: JPL_state_at_def)

lemma state_at_static:
  "localNumberOfRows (mat (JPL_state_at rnd A k)) = localNumberOfRows A"
  "numberOfNonzerosPerRow (mat (JPL_state_at rnd A k)) = numberOfNonzerosPerRow A"
  "d_rowHash (mat (JPL_state_at rnd A k)) = d_rowHash A"
  "d_mtxIndL (mat (JPL_state_at rnd A k)) = d_mtxIndL A"
  by (induction k) (simp_all add: state_at_Suc state_at_0 JPL_round_static JPL_init_fields)

lemma state_at_book: "book (JPL_state_at rnd A k)"
  by (induction k) (simp_all add: state_at_Suc state_at_0 book_round book_init)

lemma state_at_nblocks: "nblocks (mat (JPL_state_at rnd A k)) = 2 * k"
  by (induction k) (simp_all add: state_at_Suc state_at_0 JPL_round_fields JPL_init_fields)

lemma state_at_colors:
  "round_color1 rnd (JPL_state_at rnd A k) = nominated rnd (2 * k)"
  "round_color2 rnd (JPL_state_at rnd A k) = nominated rnd (2 * k + 1)"
  using round_colors_nominated[OF state_at_book, of rnd rnd A k] by (simp_all add: state_at_nblocks)

text \<open>a run of the loop that ends after k rounds\<close>

lemma JPL_loop_state_at:
  assumes bs: "blocksize \<noteq> 0" and cap: "2 * k < max_colors"
    and go: "\<forall>j<k. colored (JPL_state_at rnd A j) \<noteq> localNumberOfRows A"
    and stop: "colored (JPL_state_at rnd A k) = localNumberOfRows A"
  shows "JPL_loop max_colors blocksize rnd (JPL_init A) = Inr (JPL_state_at rnd A k)"
proof -
  have "j \<le> k \<Longrightarrow> JPL_loop max_colors blocksize rnd (JPL_state_at rnd A (k - j))
          = Inr (JPL_state_at rnd A k)" for j
  proof (induction j)
    case 0
    show ?case using stop by (simp add: JPL_loop_done state_at_static)
  next
    case (Suc j)
    let ?s = "JPL_state_at rnd A (k - Suc j)"
    have lt: "k - Suc j < k" using Suc.prems by simp
    have c: "colored ?s \<noteq> localNumberOfRows (mat ?s)"
      using go lt by (simp add: state_at_static)
    have n: "nblocks (mat ?s) + 2 < max_colors" using cap lt by (simp add: state_at_nblocks)
    have "Suc (k - Suc j) = k - j" using Suc.prems by simp
    then have "JPL_round_state rnd ?s = JPL_state_at rnd A (k - j)"
      using state_at_Suc[of rnd A "k - Suc j"] by simp
    then show ?case using JPL_loop_step[OF c bs n, of rnd] Suc by simp
  qed
  from this[of k] show ?thesis by (simp add: state_at_0)
qed

text \<open>a run that runs out of room after k rounds\<close>

lemma JPL_loop_state_at_full:
  assumes bs: "blocksize \<noteq> 0" and cap: "2 * k < max_colors" "\<not> 2 * k + 2 < max_colors"
    and go: "\<forall>j\<le>k. colored (JPL_state_at rnd A j) \<noteq> localNumberOfRows A"
  shows "JPL_loop max_colors blocksize rnd (JPL_init A) = Inl OutOfBounds"
proof -
  have "j \<le> k \<Longrightarrow> JPL_loop max_colors blocksize rnd (JPL_state_at rnd A (k - j))
          = Inl OutOfBounds" for j
  proof (induction j)
    case 0
    have "colored (JPL_state_at rnd A k) \<noteq> localNumberOfRows (mat (JPL_state_at rnd A k))"
      using go by (simp add: state_at_static)
    from JPL_loop_full[OF this bs, of max_colors rnd] cap(2) show ?case
      by (simp add: state_at_nblocks)
  next
    case (Suc j)
    let ?s = "JPL_state_at rnd A (k - Suc j)"
    have lt: "k - Suc j < k" using Suc.prems by simp
    have c: "colored ?s \<noteq> localNumberOfRows (mat ?s)"
      using go lt by (simp add: state_at_static)
    have n: "nblocks (mat ?s) + 2 < max_colors" using cap lt by (simp add: state_at_nblocks)
    have "Suc (k - Suc j) = k - j" using Suc.prems by simp
    then have "JPL_round_state rnd ?s = JPL_state_at rnd A (k - j)"
      using state_at_Suc[of rnd A "k - Suc j"] by simp
    then show ?case using JPL_loop_step[OF c bs n, of rnd] Suc by simp
  qed
  from this[of k] show ?thesis by (simp add: state_at_0)
qed

text \<open>tie pair\<close>

lemma tie_pair_stuck:
  assumes "d_rowHash (mat s) = [5, 5]" "d_mtxIndL (mat s) = [0, 1, 0, 1]"
    "localNumberOfRows (mat s) = 2" "numberOfNonzerosPerRow (mat s) = 2"
    "perm (mat s) = [-1, -1]" "colored s = 0"
  shows "perm (mat (JPL_round_state rnd s)) = [-1, -1]" "colored (JPL_round_state rnd s) = 0"
proof -
  have c: "0 \<le> round_color1 rnd s" "0 \<le> round_color2 rnd s"
    by (simp_all add: round_color1_def round_color2_def)
  have new: "map (jpl_new_color 2 [5, 5] (round_color1 rnd s) (round_color2 rnd s) [0, 1, 0, 1] 2 [-1, -1]) [0..<2]
        = [-1, -1]"
    by (simp add: jpl_eval)
  show "perm (mat (JPL_round_state rnd s)) = [-1, -1]"
    by (rule JPL_round_eval(1)[OF assms(3,4,1,2,5) _ refl refl new]) simp
  have "colored (JPL_round_state rnd s) = colored s + length (filter (\<lambda>j. [-1, -1] ! j = round_color1 rnd s) [0..<2])
        + length (filter (\<lambda>j. [-1, -1] ! j = round_color2 rnd s) [0..<2])"
    by (rule JPL_round_eval(2)[OF assms(3,4,1,2,5) _ refl refl new]) simp
  then show "colored (JPL_round_state rnd s) = 0" using c assms(6) by (auto simp: jpl_eval)
qed

lemma tie_pair_breaks:
  assumes "blocksize \<noteq> 0"
  shows "JPL_loop max_colors blocksize rnd (JPL_init tie_pair) = Inl OutOfBounds"
proof (cases "JPL_loop max_colors blocksize rnd (JPL_init tie_pair)")
  case (Inl e)
  then show ?thesis using JPL_loop_breaks[OF Inl] assms by simp
next
  case (Inr s')
  let ?I = "\<lambda>s::jpl_state. d_rowHash (mat s) = [5, 5] \<and> d_mtxIndL (mat s) = [0, 1, 0, 1] \<and>
    localNumberOfRows (mat s) = 2 \<and> numberOfNonzerosPerRow (mat s) = 2 \<and>
    perm (mat s) = [-1, -1] \<and> colored s = 0"
  have "?I s' \<and> colored s' = localNumberOfRows (mat s')"
  proof (rule JPL_loop_invariant[OF Inr, where I = ?I])
    show "?I (JPL_init tie_pair)" by (simp add: JPL_init_fields tie_pair_def numeral_2_eq_2)
  next
    fix t assume "?I t"
    then show "?I (JPL_round_state rnd t)" using tie_pair_stuck[of t rnd] by (simp add: JPL_round_static)
  qed
  then have "colored s' = 0" "colored s' = localNumberOfRows (mat s')" "localNumberOfRows (mat s') = 2"
    by blast+
  then have False by linarith
  then show ?thesis ..
qed

text \<open>the stream of the GNU C library\<close>

lemma rand_glibc_mod:
  "rand_glibc 0 mod 8 = 0" "rand_glibc 1 mod 8 = 7" "rand_glibc 2 mod 8 = 1"
  "rand_glibc 3 mod 8 = 2" "rand_glibc 4 mod 8 = 4" "rand_glibc 5 mod 8 = 3"
  "rand_glibc 6 mod 8 = 5" "rand_glibc 7 mod 8 = 6"
  by (simp_all add: rand_glibc_def)

lemma nominated_glibc:
  "nominated rand_glibc 0 = 0" "nominated rand_glibc 1 = 7" "nominated rand_glibc 2 = 1"
  "nominated rand_glibc 3 = 2" "nominated rand_glibc 4 = 4" "nominated rand_glibc 5 = 3"
  "nominated rand_glibc 6 = 5" "nominated rand_glibc 7 = 6"
  using rand_glibc_mod by (simp_all add: nominated_def)

lemma distinct_draws_glibc: "distinct_draws rand_glibc"
proof -
  have "map (\<lambda>i. rand_glibc i mod 8) [0..<8] = [0, 7, 1, 2, 4, 3, 5, 6]"
    by (simp add: rand_glibc_def upt_rec[of _ "numeral _"] upt_rec[of _ "Suc _"])
  then show ?thesis by (simp add: distinct_draws_def)
qed

text \<open>runs on the examples\<close>

lemma path3_states:
  "colored (JPL_state_at rand_glibc path3 0) = 0"
  "colored (JPL_state_at rand_glibc path3 1) = 2"
  "colored (JPL_state_at rand_glibc path3 2) = 3"
  "perm (mat (JPL_state_at rand_glibc path3 2)) = [7, 1, 0]"
  "sizes (mat (JPL_state_at rand_glibc path3 2)) = [1, 1, 1, 0]"
proof -
  let ?R = rand_glibc
  let ?s = "JPL_state_at ?R path3"
  have m: "localNumberOfRows (mat (?s k)) = 3" "numberOfNonzerosPerRow (mat (?s k)) = 3"
    "d_rowHash (mat (?s k)) = [1, 2, 3]" "d_mtxIndL (mat (?s k)) = [-1, 0, 1,  0, 1, 2,  1, 2, -1]" for k
    by (simp_all add: state_at_static path3_def)
  have c: "round_color1 ?R (?s 0) = 0" "round_color2 ?R (?s 0) = 7"
    "round_color1 ?R (?s 1) = 1" "round_color2 ?R (?s 1) = 2"
    using nominated_glibc by (simp_all add: state_at_colors)
  have p0: "perm (mat (?s 0)) = [-1, -1, -1]" "sizes (mat (?s 0)) = []"
    by (simp_all add: state_at_0 JPL_init_fields path3_def numeral_3_eq_3)
  show c0: "colored (?s 0) = 0" by (simp add: state_at_0 JPL_init_fields)
  have n1: "map (jpl_new_color 3 [1, 2, 3] 0 7 [-1, 0, 1,  0, 1, 2,  1, 2, -1] 3 [-1, -1, -1]) [0..<3] = [7, -1, 0]"
    by (simp add: jpl_eval)
  have p1: "perm (mat (?s 1)) = [7, -1, 0]" "sizes (mat (?s 1)) = [1, 1]"
    unfolding One_nat_def state_at_Suc
    using JPL_round_eval[OF m(1,2,3,4) p0(1) _ c(1,2) n1] p0(2) by (simp_all add: jpl_eval)
  show c1: "colored (?s 1) = 2"
    unfolding One_nat_def state_at_Suc
    using JPL_round_eval(2)[OF m(1,2,3,4) p0(1) _ c(1,2) n1] c0 by (simp add: jpl_eval)
  have n2: "map (jpl_new_color 3 [1, 2, 3] 1 2 [-1, 0, 1,  0, 1, 2,  1, 2, -1] 3 [7, -1, 0]) [0..<3] = [7, 1, 0]"
    by (simp add: jpl_eval)
  have s2: "?s 2 = JPL_round_state ?R (?s 1)" by (simp add: state_at_Suc[symmetric] numeral_2_eq_2)
  show p2: "perm (mat (?s 2)) = [7, 1, 0]" 
    unfolding s2 using JPL_round_eval(1)[OF m(1,2,3,4) p1(1) _ c(3,4) n2] by simp
  show c2: "colored (?s 2) = 3"
    unfolding s2 using JPL_round_eval(2)[OF m(1,2,3,4) p1(1) _ c(3,4) n2] c1 by (simp add: jpl_eval)
  show "sizes (mat (?s 2)) = [1, 1, 1, 0]"
    unfolding s2 using JPL_round_eval(3)[OF m(1,2,3,4) p1(1) _ c(3,4) n2] p1(2) by (simp add: jpl_eval)
qed

lemma path3_rows: "localNumberOfRows path3 = 3" "numberOfNonzerosPerRow path3 = 3"
  by (simp_all add: path3_def)

lemma path3_run:
  assumes "blocksize \<noteq> 0" "4 < max_colors"
  shows "JPL_loop max_colors blocksize rand_glibc (JPL_init path3)
         = Inr (JPL_state_at rand_glibc path3 2)"
proof (rule JPL_loop_state_at[OF assms(1)])
  show "2 * 2 < max_colors" using assms(2) by simp
  show "\<forall>j<2. colored (JPL_state_at rand_glibc path3 j) \<noteq> localNumberOfRows path3"
    using path3_states(1,2) by (simp add: path3_rows less_Suc_eq numeral_2_eq_2)
  show "colored (JPL_state_at rand_glibc path3 2) = localNumberOfRows path3"
    by (simp add: path3_states path3_rows)
qed

lemma path3_short:
  assumes "blocksize \<noteq> 0"
  shows "JPL_loop 4 blocksize rand_glibc (JPL_init path3) = Inl OutOfBounds"
proof (rule JPL_loop_state_at_full[OF assms, where k = 1])
  show "2 * 1 < (4::nat)" "\<not> 2 * 1 + 2 < (4::nat)" by simp_all
  show "\<forall>j\<le>1. colored (JPL_state_at rand_glibc path3 j) \<noteq> localNumberOfRows path3"
    using path3_states(1,2) by (simp add: path3_rows le_Suc_eq)
qed

lemmas bounded_eval = numeral_2_eq_2 numeral_3_eq_3 All_less_Suc Ex_less_Suc

lemma path3_symmetric: "symmetric_adjacency path3"
  by (simp add: symmetric_adjacency_def stored_entry_def path3_def bounded_eval)

lemma path3_no_ties: "no_hash_ties path3"
  by (simp add: no_hash_ties_def stored_entry_def path3_def bounded_eval)

lemma one_way_cycle_states:
  "colored (JPL_state_at rand_glibc one_way_cycle 0) = 0"
  "colored (JPL_state_at rand_glibc one_way_cycle 1) = 3"
  "perm (mat (JPL_state_at rand_glibc one_way_cycle 1)) = [0, 0, 7]"
proof -
  let ?R = rand_glibc
  let ?s = "JPL_state_at ?R one_way_cycle"
  have m: "localNumberOfRows (mat (?s k)) = 3" "numberOfNonzerosPerRow (mat (?s k)) = 2"
    "d_rowHash (mat (?s k)) = [3, 2, 1]" "d_mtxIndL (mat (?s k)) = [0, 1,  1, 2,  2, 0]" for k
    by (simp_all add: state_at_static one_way_cycle_def)
  have c: "round_color1 ?R (?s 0) = 0" "round_color2 ?R (?s 0) = 7"
    using nominated_glibc by (simp_all add: state_at_colors)
  have p0: "perm (mat (?s 0)) = [-1, -1, -1]"
    by (simp_all add: state_at_0 JPL_init_fields one_way_cycle_def numeral_3_eq_3)
  show c0: "colored (?s 0) = 0" by (simp add: state_at_0 JPL_init_fields)
  have n1: "map (jpl_new_color 3 [3, 2, 1] 0 7 [0, 1,  1, 2,  2, 0] 2 [-1, -1, -1]) [0..<3] = [0, 0, 7]"
    by (simp add: jpl_eval)
  show p1: "perm (mat (?s 1)) = [0, 0, 7]"
    unfolding One_nat_def state_at_Suc
    using JPL_round_eval(1)[OF m(1,2,3,4) p0(1) _ c(1,2) n1] by simp
  show c1: "colored (?s 1) = 3"
    unfolding One_nat_def state_at_Suc
    using JPL_round_eval(2)[OF m(1,2,3,4) p0(1) _ c(1,2) n1] c0 by (simp add: jpl_eval)
qed

lemma one_way_cycle_run:
  assumes "blocksize \<noteq> 0" "2 < max_colors"
  shows "JPL_loop max_colors blocksize rand_glibc (JPL_init one_way_cycle)
         = Inr (JPL_state_at rand_glibc one_way_cycle 1)"
proof (rule JPL_loop_state_at[OF assms(1)])
  show "2 * 1 < max_colors" using assms(2) by simp
  show "\<forall>j<1. colored (JPL_state_at rand_glibc one_way_cycle j) \<noteq> localNumberOfRows one_way_cycle"
    using one_way_cycle_states(1) by (simp add: one_way_cycle_def)
  show "colored (JPL_state_at rand_glibc one_way_cycle 1) = localNumberOfRows one_way_cycle"
    using one_way_cycle_states(2) by (simp add: one_way_cycle_def)
qed

lemma path9_rounds:
  "colored (JPL_state_at rand_glibc path9 0) = 0"
  "colored (JPL_state_at rand_glibc path9 1) = 2"
  "colored (JPL_state_at rand_glibc path9 2) = 4"
  "colored (JPL_state_at rand_glibc path9 3) = 6"
  "colored (JPL_state_at rand_glibc path9 4) = 8"
proof -
  let ?R = rand_glibc
  let ?s = "JPL_state_at ?R path9"
  let ?h = "[10, 11, 12, 13, 14, 15, 16, 17, 18] :: int list"
  let ?ind = "[-1, 0, 1,  0, 1, 2,  1, 2, 3,  2, 3, 4,  3, 4, 5,  4, 5, 6,  5, 6, 7,  6, 7, 8,  7, 8, -1] :: int list"
  have m: "localNumberOfRows (mat (?s k)) = 9" "numberOfNonzerosPerRow (mat (?s k)) = 3"
    "d_rowHash (mat (?s k)) = ?h" "d_mtxIndL (mat (?s k)) = ?ind" for k
    by (simp_all add: state_at_static path9_def)
  have c: "round_color1 ?R (?s 0) = 0" "round_color2 ?R (?s 0) = 7"
    "round_color1 ?R (?s 1) = 1" "round_color2 ?R (?s 1) = 2"
    "round_color1 ?R (?s 2) = 4" "round_color2 ?R (?s 2) = 3"
    "round_color1 ?R (?s 3) = 5" "round_color2 ?R (?s 3) = 6"
    using nominated_glibc by (simp_all add: state_at_colors)
  have s: "?s 1 = JPL_round_state ?R (?s 0)" "?s 2 = JPL_round_state ?R (?s 1)" "?s 3 = JPL_round_state ?R (?s 2)"
    "?s 4 = JPL_round_state ?R (?s 3)"
    by (simp_all add: state_at_Suc[symmetric] eval_nat_numeral)
  have p0: "perm (mat (?s 0)) = [-1, -1, -1, -1, -1, -1, -1, -1, -1]"
    by (simp add: state_at_0 JPL_init_fields path9_def eval_nat_numeral)
  show c0: "colored (?s 0) = 0" by (simp add: state_at_0 JPL_init_fields)
  have n1: "map (jpl_new_color 9 ?h 0 7 ?ind 3 [-1, -1, -1, -1, -1, -1, -1, -1, -1]) [0..<9]
            = [7, -1, -1, -1, -1, -1, -1, -1, 0]"
    by (simp add: jpl_eval)
  have p1: "perm (mat (?s 1)) = [7, -1, -1, -1, -1, -1, -1, -1, 0]"
    unfolding s using JPL_round_eval(1)[OF m(1,2,3,4) p0 _ c(1,2) n1] by simp
  show c1: "colored (?s 1) = 2"
    unfolding s using JPL_round_eval(2)[OF m(1,2,3,4) p0 _ c(1,2) n1] c0 by (simp add: jpl_eval)
  have n2: "map (jpl_new_color 9 ?h 1 2 ?ind 3 [7, -1, -1, -1, -1, -1, -1, -1, 0]) [0..<9]
            = [7, 2, -1, -1, -1, -1, -1, 1, 0]"
    by (simp add: jpl_eval)
  have p2: "perm (mat (?s 2)) = [7, 2, -1, -1, -1, -1, -1, 1, 0]"
    unfolding s(2) using JPL_round_eval(1)[OF m(1,2,3,4) p1 _ c(3,4) n2] by simp
  show c2: "colored (?s 2) = 4"
    unfolding s(2) using JPL_round_eval(2)[OF m(1,2,3,4) p1 _ c(3,4) n2] c1 by (simp add: jpl_eval)
  have n3: "map (jpl_new_color 9 ?h 4 3 ?ind 3 [7, 2, -1, -1, -1, -1, -1, 1, 0]) [0..<9]
            = [7, 2, 3, -1, -1, -1, 4, 1, 0]"
    by (simp add: jpl_eval)
  have p3: "perm (mat (?s 3)) = [7, 2, 3, -1, -1, -1, 4, 1, 0]"
    unfolding s(3) using JPL_round_eval(1)[OF m(1,2,3,4) p2 _ c(5,6) n3] by simp
  show c3: "colored (?s 3) = 6"
    unfolding s(3) using JPL_round_eval(2)[OF m(1,2,3,4) p2 _ c(5,6) n3] c2 by (simp add: jpl_eval)
  have n4: "map (jpl_new_color 9 ?h 5 6 ?ind 3 [7, 2, 3, -1, -1, -1, 4, 1, 0]) [0..<9]
            = [7, 2, 3, 6, -1, 5, 4, 1, 0]"
    by (simp add: jpl_eval)
  show c4: "colored (?s 4) = 8"
    unfolding s(4) using JPL_round_eval(2)[OF m(1,2,3,4) p3 _ c(7,8) n4] c3 by (simp add: jpl_eval)
qed


text \<open>what JPLColoring returns\<close>

lemma JPLColoring_Inr:
  assumes "JPLColoring max_colors rnd reference A = Inr A'"
  obtains s where
    "JPL_loop max_colors (JPL_blocksize (numberOfNonzerosPerRow A)) rnd (JPL_init A) = Inr s"
    "A' = (mat s)\<lparr> ublocks := (if reference then int (nblocks (mat s)) - 1
                                  else int (nblocks (mat s)) - 1 - 1) \<rparr>"
  using assms unfolding JPLColoring_def by (auto split: if_splits sum.splits)



section \<open>Lemmas: the solver kernels\<close>

lemma fold_slot_row_sum:
  "fold (\<lambda>p acc. let idx = p * m + row; col = col_ind ! idx
                 in if keep col then fma (- (val ! idx)) (y ! nat col) acc else acc) slots a
   = a - row_sum keep m col_ind val y row slots"
  by (induction slots arbitrary: a) (simp_all add: row_sum_def fma_def Let_def)

lemma symgs_sweep_fold:
  "fold (symgs_sweep_slot m n col_ind val y row) slots a
   = a - row_sum (\<lambda>c. 0 \<le> c \<and> c < int n \<and> c \<noteq> int row) m col_ind val y row slots"
  using fold_slot_row_sum[of m row col_ind "\<lambda>c. 0 \<le> c \<and> c < int n \<and> c \<noteq> int row" val y slots a]
  unfolding symgs_sweep_slot_def[abs_def] by simp

lemma forward_sweep_0_fold:
  "fold (forward_sweep_0_slot m offset col_ind val y row) slots a
   = a - row_sum (\<lambda>c. 0 \<le> c \<and> c < int offset) m col_ind val y row slots"
  using fold_slot_row_sum[of m row col_ind "\<lambda>c. 0 \<le> c \<and> c < int offset" val y slots a]
  unfolding forward_sweep_0_slot_def[abs_def] by simp

lemma backward_sweep_0_fold:
  "fold (backward_sweep_0_slot m offset col_ind val y row) slots a
   = a - row_sum (\<lambda>c. int offset \<le> c \<and> c < int m) m col_ind val y row slots"
  using fold_slot_row_sum[of m row col_ind "\<lambda>c. int offset \<le> c \<and> c < int m" val y slots a]
  unfolding backward_sweep_0_slot_def[abs_def] by simp

lemma symgs_halo_fold:
  "fold (symgs_halo_slot m n col_ind val y row) slots a
   = a - row_sum (\<lambda>c. 0 \<le> c \<and> c < int n) m col_ind val y row slots"
  using fold_slot_row_sum[of m row col_ind "\<lambda>c. 0 \<le> c \<and> c < int n" val y slots a]
  unfolding symgs_halo_slot_def[abs_def] by simp

text \<open>row_sum only reads the kept columns\<close>

lemma row_sum_cong:
  assumes "\<And>p. p \<in> set slots \<Longrightarrow> keep (col_ind ! (p * m + row)) \<Longrightarrow>
             y' ! nat (col_ind ! (p * m + row)) = y ! nat (col_ind ! (p * m + row))"
  shows "row_sum keep m col_ind val y' row slots = row_sum keep m col_ind val y row slots"
  unfolding row_sum_def
  by (rule arg_cong[where f = sum_list], rule map_cong[OF refl]) (simp add: assms)

text \<open>a launch whose thread gid writes entry gid + offset\<close>

lemma launch_rows:
  fixes g :: "real list \<Rightarrow> nat \<Rightarrow> real"
  assumes thread: "\<And>gid y. f gid y = y[gid + offset := g y (gid + offset)]"
    and local: "\<And>gid y'. gid < k \<Longrightarrow> length y' = length y \<Longrightarrow>
                 (\<forall>i<length y. \<not> in_block offset k i \<longrightarrow> y' ! i = y ! i) \<Longrightarrow>
                 g y' (gid + offset) = g y (gid + offset)"
    and len: "offset + k \<le> length y"
  shows "fold f [0..<k] y
         = map (\<lambda>i. if in_block offset k i then g y i else y ! i) [0..<length y]"
proof -
  have "j \<le> k \<Longrightarrow> fold f [0..<j] y
         = map (\<lambda>i. if in_block offset j i then g y i else y ! i) [0..<length y]" for j
  proof (induction j)
    case 0
    then show ?case by (intro nth_equalityI) (auto simp: in_block_def)
  next
    case (Suc j)
    let ?y' = "map (\<lambda>i. if in_block offset j i then g y i else y ! i) [0..<length y]"
    have IH: "fold f [0..<j] y = ?y'" using Suc by simp
    have j: "j < k" using Suc.prems by simp
    have "g ?y' (j + offset) = g y (j + offset)"
    proof (rule local[OF j])
      show "length ?y' = length y" by simp
      show "\<forall>i<length y. \<not> in_block offset k i \<longrightarrow> ?y' ! i = y ! i"
        using j by (auto simp: in_block_def)
    qed
    then have "fold f [0..<Suc j] y = ?y'[j + offset := g y (j + offset)]"
      by (simp add: IH thread)
    also have "\<dots> = map (\<lambda>i. if in_block offset (Suc j) i then g y i else y ! i) [0..<length y]"
      using len j by (intro nth_equalityI) (auto simp: nth_list_update in_block_def)
    finally show ?case .
  qed
  from this[of k] show ?thesis by simp
qed


lemma kernel_symgs_sweep_rows:
  assumes len: "offset + block_nrow \<le> length y" "n \<le> length y"
    and ind: "block_independent (\<lambda>row c. 0 \<le> c \<and> c < int n \<and> c \<noteq> int row)
                 m offset block_nrow width col_ind"
  shows "kernel_symgs_sweep m n block_nrow offset width col_ind val idiag x y
         = map (\<lambda>i. if in_block offset block_nrow i
                     then (x ! i - row_sum (\<lambda>c. 0 \<le> c \<and> c < int n \<and> c \<noteq> int i)
                                     m col_ind val y i [0..<width]) * idiag ! i
                     else y ! i) [0..<length y]"
  unfolding kernel_symgs_sweep_def
proof (rule launch_rows[where g = "\<lambda>y i. (x ! i - row_sum (\<lambda>c. 0 \<le> c \<and> c < int n \<and> c \<noteq> int i)
                                     m col_ind val y i [0..<width]) * idiag ! i"])
  show "kernel_symgs_sweep_thread m n offset width col_ind val idiag x gid y
        = y[gid + offset := (x ! (gid + offset) - row_sum (\<lambda>c. 0 \<le> c \<and> c < int n \<and> c \<noteq> int (gid + offset))
                                     m col_ind val y (gid + offset) [0..<width]) * idiag ! (gid + offset)]" for gid y
    by (simp add: kernel_symgs_sweep_thread_def symgs_sweep_fold Let_def)
next
  fix gid y'
  assume gid: "gid < block_nrow" and l: "length y' = length y"
    and out: "\<forall>i<length y. \<not> in_block offset block_nrow i \<longrightarrow> y' ! i = y ! i"
  let ?row = "gid + offset"
  have "row_sum (\<lambda>c. 0 \<le> c \<and> c < int n \<and> c \<noteq> int ?row) m col_ind val y' ?row [0..<width]
      = row_sum (\<lambda>c. 0 \<le> c \<and> c < int n \<and> c \<noteq> int ?row) m col_ind val y ?row [0..<width]"
  proof (rule row_sum_cong)
    fix p assume p: "p \<in> set [0..<width]"
      and k: "0 \<le> col_ind ! (p * m + ?row) \<and> col_ind ! (p * m + ?row) < int n \<and> col_ind ! (p * m + ?row) \<noteq> int ?row"
    have "\<not> in_block offset block_nrow (nat (col_ind ! (p * m + ?row)))"
      using ind gid p k unfolding block_independent_def by simp
    moreover have "nat (col_ind ! (p * m + ?row)) < length y" using k len(2) by linarith
    ultimately show "y' ! nat (col_ind ! (p * m + ?row)) = y ! nat (col_ind ! (p * m + ?row))"
      using out by blast
  qed
  then show "(x ! ?row - row_sum (\<lambda>c. 0 \<le> c \<and> c < int n \<and> c \<noteq> int ?row) m col_ind val y' ?row [0..<width]) * idiag ! ?row
           = (x ! ?row - row_sum (\<lambda>c. 0 \<le> c \<and> c < int n \<and> c \<noteq> int ?row) m col_ind val y ?row [0..<width]) * idiag ! ?row"
    by simp
next
  show "offset + block_nrow \<le> length y" by (rule len(1))
qed

text \<open>a launch whose threads may fail, when none of them does\<close>

lemma fold_bind_None [simp]: "fold (\<lambda>a y. Option.bind y (g a)) xs None = None"
  by (induction xs) simp_all

lemma fold_bind_Some:
  assumes "\<And>a z. a \<in> set xs \<Longrightarrow> g a z = Some (f a z)"
  shows "fold (\<lambda>a y. Option.bind y (g a)) xs (Some y) = Some (fold f xs y)"
  using assms by (induction xs arbitrary: y) simp_all

lemma kernel_forward_sweep_0_rows:
  assumes len: "offset + block_nrow \<le> length y"
    and nz: "\<forall>gid < block_nrow. val ! (didx ! (gid + offset) * m + (gid + offset)) \<noteq> 0"
  shows "kernel_forward_sweep_0 m block_nrow offset width col_ind val didx x y
         = Some (map (\<lambda>i. if in_block offset block_nrow i
                     then (x ! i - row_sum (\<lambda>c. 0 \<le> c \<and> c < int offset)
                                     m col_ind val y i [0..<didx ! i]) / val ! (didx ! i * m + i)
                     else y ! i) [0..<length y])"
proof -
  let ?g = "\<lambda>y i. (x ! i - row_sum (\<lambda>c. 0 \<le> c \<and> c < int offset)
                                     m col_ind val y i [0..<didx ! i]) / val ! (didx ! i * m + i)"
  let ?f = "\<lambda>gid y. y[gid + offset := ?g y (gid + offset)]"
  have "kernel_forward_sweep_0 m block_nrow offset width col_ind val didx x y
        = Some (fold ?f [0..<block_nrow] y)"
    unfolding kernel_forward_sweep_0_def
  proof (rule fold_bind_Some)
    fix gid z assume "gid \<in> set [0..<block_nrow]"
    then have "val ! (didx ! (gid + offset) * m + (gid + offset)) \<noteq> 0" using nz by simp
    then show "kernel_forward_sweep_0_thread m offset col_ind val didx x gid z = Some (?f gid z)"
      by (simp add: kernel_forward_sweep_0_thread_def forward_sweep_0_fold Let_def)
  qed
  also have "fold ?f [0..<block_nrow] y
      = map (\<lambda>i. if in_block offset block_nrow i then ?g y i else y ! i) [0..<length y]"
  proof (rule launch_rows[where g = ?g])
    show "?f gid y = y[gid + offset := ?g y (gid + offset)]" for gid y ..
  next
    fix gid and y' :: "real list"
    assume gid: "gid < block_nrow" and l: "length y' = length y"
      and out: "\<forall>i<length y. \<not> in_block offset block_nrow i \<longrightarrow> y' ! i = y ! i"
    let ?row = "gid + offset"
    have "row_sum (\<lambda>c. 0 \<le> c \<and> c < int offset) m col_ind val y' ?row [0..<didx ! ?row]
        = row_sum (\<lambda>c. 0 \<le> c \<and> c < int offset) m col_ind val y ?row [0..<didx ! ?row]"
    proof (rule row_sum_cong)
      fix p assume k: "0 \<le> col_ind ! (p * m + ?row) \<and> col_ind ! (p * m + ?row) < int offset"
      then have "nat (col_ind ! (p * m + ?row)) < offset" by linarith
      then have "\<not> in_block offset block_nrow (nat (col_ind ! (p * m + ?row)))"
        "nat (col_ind ! (p * m + ?row)) < length y" using len by (simp_all add: in_block_def)
      then show "y' ! nat (col_ind ! (p * m + ?row)) = y ! nat (col_ind ! (p * m + ?row))"
        using out by blast
    qed
    then show "?g y' ?row = ?g y ?row" by simp
  next
    show "offset + block_nrow \<le> length y" by (rule len)
  qed
  finally show ?thesis .
qed

lemma kernel_pointwise_mult_rows:
  assumes "sz \<le> length out"
  shows "kernel_pointwise_mult sz x y out
         = map (\<lambda>i. if i < sz then x ! i * y ! i else out ! i) [0..<length out]"
proof -
  have "kernel_pointwise_mult sz x y out
        = map (\<lambda>i. if in_block 0 sz i then x ! i * y ! i else out ! i) [0..<length out]"
    unfolding kernel_pointwise_mult_def
    by (rule launch_rows[where g = "\<lambda>out i. x ! i * y ! i" and offset = 0, simplified]) (simp_all add: assms)
  then show ?thesis by (simp add: in_block_def)
qed

lemma length_halo_thread [simp]:
  "length (kernel_symgs_halo_thread m n block_nrow hw hrow_ind hcol_ind hval idiag prm row y) = length y"
  by (simp add: kernel_symgs_halo_thread_def Let_def)

lemma kernel_symgs_halo_prefix:
  fixes y hval idiag :: "real list" and prm hcol_ind :: "int list" and hrow_ind :: "nat list"
    and n m hw :: nat
  defines "T \<equiv> \<lambda>row. prm ! (hrow_ind ! row)"
  defines "F \<equiv> \<lambda>row. y ! nat (prm ! (hrow_ind ! row))
                  + (0 - row_sum (\<lambda>c. 0 \<le> c \<and> c < int n) m hcol_ind hval y row [0..<hw])
                    * idiag ! (hrow_ind ! row)"
  assumes nonneg: "\<forall>row<m. 0 \<le> T row"
    and dist: "\<forall>row<m. \<forall>row'<m. row \<noteq> row' \<longrightarrow> T row \<noteq> T row'"
    and ghost: "\<forall>row<m. \<forall>p<hw. 0 \<le> hcol_ind ! (p * m + row) \<and> hcol_ind ! (p * m + row) < int n
                 \<longrightarrow> int block_nrow \<le> hcol_ind ! (p * m + row)"
    and len: "block_nrow \<le> length y" "n \<le> length y"
    and j: "j \<le> m"
  shows "let y' = fold (kernel_symgs_halo_thread m n block_nrow hw hrow_ind hcol_ind hval idiag prm) [0..<j] y
         in length y' = length y \<and>
            (\<forall>row<j. T row < int block_nrow \<longrightarrow> y' ! nat (T row) = F row) \<and>
            (\<forall>i<length y. (\<forall>row<j. T row \<noteq> int i \<or> int block_nrow \<le> T row) \<longrightarrow> y' ! i = y ! i)"
  using j
proof (induction j)
  case 0
  then show ?case by simp
next
  case (Suc j)
  let ?th = "kernel_symgs_halo_thread m n block_nrow hw hrow_ind hcol_ind hval idiag prm"
  let ?y = "fold ?th [0..<j] y"
  have j: "j < m" using Suc.prems by simp
  have IH: "length ?y = length y"
    "\<forall>row<j. T row < int block_nrow \<longrightarrow> ?y ! nat (T row) = F row"
    "\<forall>i<length y. (\<forall>row<j. T row \<noteq> int i \<or> int block_nrow \<le> T row) \<longrightarrow> ?y ! i = y ! i"
    using Suc.IH Suc.prems by (simp_all add: Let_def)
  have step: "fold ?th [0..<Suc j] y = ?th j ?y" by simp
  show ?case
  proof (cases "int block_nrow \<le> T j")
    case True
    then have same: "?th j ?y = ?y" by (simp add: kernel_symgs_halo_thread_def T_def Let_def)
    show ?thesis unfolding step same Let_def using IH True
      by (auto simp: less_Suc_eq)
  next
    case False
    then have tj: "T j < int block_nrow" by simp
    have tj0: "0 \<le> T j" using nonneg j by simp
    have tjl: "nat (T j) < length y" using tj tj0 len(1) by linarith
    have other: "T row \<noteq> T j" if "row < j" for row using dist j that by simp
    have yj: "?y ! nat (T j) = y ! nat (T j)"
    proof -
      have "\<forall>row<j. T row \<noteq> int (nat (T j)) \<or> int block_nrow \<le> T row"
        using other tj0 by simp
      then show ?thesis using IH(3) tjl by blast
    qed
    have rs: "row_sum (\<lambda>c. 0 \<le> c \<and> c < int n) m hcol_ind hval ?y j [0..<hw]
            = row_sum (\<lambda>c. 0 \<le> c \<and> c < int n) m hcol_ind hval y j [0..<hw]"
    proof (rule row_sum_cong)
      fix p assume p: "p \<in> set [0..<hw]"
        and k: "0 \<le> hcol_ind ! (p * m + j) \<and> hcol_ind ! (p * m + j) < int n"
      let ?c = "hcol_ind ! (p * m + j)"
      have big: "int block_nrow \<le> ?c" using ghost j p k by simp
      have cl: "nat ?c < length y" using k len(2) by linarith
      have "\<forall>row<j. T row \<noteq> int (nat ?c) \<or> int block_nrow \<le> T row"
        using big k by auto
      then show "?y ! nat ?c = y ! nat ?c" using IH(3) cl by blast
    qed
    have new: "?th j ?y = ?y[nat (T j) := F j]"
      using False by (simp add: kernel_symgs_halo_thread_def T_def F_def Let_def symgs_halo_fold rs yj[unfolded T_def] fma_def)
    show ?thesis
      unfolding step new Let_def
    proof (intro conjI allI impI)
      show "length (?y[nat (T j) := F j]) = length y" using IH(1) by simp
    next
      fix row assume r: "row < Suc j" and t: "T row < int block_nrow"
      show "?y[nat (T j) := F j] ! nat (T row) = F row"
      proof (cases "row = j")
        case True
        then show ?thesis using tjl IH(1) by simp
      next
        case False
        then have rj: "row < j" using r by simp
        have "nat (T row) \<noteq> nat (T j)" using other[OF rj] tj0 nonneg rj j by (simp add: nat_eq_iff)
        then show ?thesis using IH(2) rj t by simp
      qed
    next
      fix i assume i: "i < length y" and no: "\<forall>row<Suc j. T row \<noteq> int i \<or> int block_nrow \<le> T row"
      have "i \<noteq> nat (T j)" using no tj tj0 by (metis int_nat_eq lessI linorder_not_less)
      moreover have "\<forall>row<j. T row \<noteq> int i \<or> int block_nrow \<le> T row" using no less_SucI by blast
      ultimately show "?y[nat (T j) := F j] ! i = y ! i" using IH(3) i by simp
    qed
  qed
qed

lemmas upt_eval = upt_rec[of _ "numeral _"] upt_rec[of _ "Suc _"]





subsection \<open>Sums over the slots of a row\<close>

lemma row_sum_eqI:
  assumes "\<And>p. p \<in> set slots \<Longrightarrow>
     (if K (col_ind ! (p * m + row)) then val ! (p * m + row) * y ! nat (col_ind ! (p * m + row)) else 0)
   = (if K' (col_ind ! (p * m + row)) then val ! (p * m + row) * y' ! nat (col_ind ! (p * m + row)) else 0)"
  shows "row_sum K m col_ind val y row slots = row_sum K' m col_ind val y' row slots"
  unfolding row_sum_def
  by (rule arg_cong[where f = sum_list], rule map_cong[OF refl]) (rule assms)

lemma row_sum_zeroI:
  assumes "\<And>p. p \<in> set slots \<Longrightarrow> K (col_ind ! (p * m + row)) \<Longrightarrow>
             y ! nat (col_ind ! (p * m + row)) = 0"
  shows "row_sum K m col_ind val y row slots = 0"
proof -
  have "\<forall>p\<in>set slots. (if K (col_ind ! (p * m + row))
                  then val ! (p * m + row) * y ! nat (col_ind ! (p * m + row)) else 0) = 0"
    by (simp add: assms)
  then show ?thesis unfolding row_sum_def by (induction slots) simp_all
qed

lemma row_sum_append:
  "row_sum K m col_ind val y row (xs @ ys)
   = row_sum K m col_ind val y row xs + row_sum K m col_ind val y row ys"
  by (simp add: row_sum_def)

lemma row_sum_split:
  assumes "\<And>c. K c = (L c \<or> U c)" "\<And>c. \<not> (L c \<and> U c)"
  shows "row_sum K m col_ind val y row slots
         = row_sum L m col_ind val y row slots + row_sum U m col_ind val y row slots"
proof (induction slots)
  case Nil
  then show ?case by (simp add: row_sum_def)
next
  case (Cons p slots)
  have "row_sum K m col_ind val y row (p # slots)
        = (if K (col_ind ! (p * m + row)) then val ! (p * m + row) * y ! nat (col_ind ! (p * m + row)) else 0)
          + row_sum K m col_ind val y row slots" for K
    by (simp add: row_sum_def)
  then show ?case using Cons assms(1)[of "col_ind ! (p * m + row)"] assms(2)[of "col_ind ! (p * m + row)"]
    by auto
qed

lemma upt_split: "d \<le> w \<Longrightarrow> [0..<w] = [0..<d] @ [d..<w]"
  by (metis le_add_diff_inverse upt_add_eq_append zero_le)

lemma zero_fromD:
  assumes "zero_from A k y" "int k \<le> c" "c < int (localNumberOfColumns A)"
  shows "y ! nat c = 0"
proof -
  have "k \<le> nat c" "nat c < localNumberOfColumns A" using assms(2,3) by linarith+
  then show ?thesis using assms(1) unfolding zero_from_def by blast
qed

subsection \<open>The block table\<close>

lemma offsets_mono:
  assumes "block_table_wellformed A" "i \<le> j" "j \<le> nblocks A"
  shows "offsets A ! i \<le> offsets A ! j"
  using assms(2,3)
proof (induction j)
  case 0
  then show ?case by simp
next
  case (Suc j)
  show ?case
  proof (cases "i = Suc j")
    case True
    then show ?thesis by simp
  next
    case False
    then have "i \<le> j" using Suc.prems by simp
    moreover have "offsets A ! Suc j = offsets A ! j + sizes A ! j"
      using assms(1) Suc.prems unfolding block_table_wellformed_def by simp
    ultimately show ?thesis using Suc by simp
  qed
qed

lemma block_end:
  assumes "block_table_wellformed A" "i < nblocks A"
  shows "offsets A ! i + sizes A ! i = offsets A ! Suc i"
    "offsets A ! Suc i \<le> localNumberOfRows A"
proof -
  show "offsets A ! i + sizes A ! i = offsets A ! Suc i"
    using assms unfolding block_table_wellformed_def by simp
  have "offsets A ! Suc i \<le> offsets A ! nblocks A"
    using assms by (intro offsets_mono) simp_all
  then show "offsets A ! Suc i \<le> localNumberOfRows A"
    using assms(1) unfolding block_table_wellformed_def by simp
qed

subsection \<open>The stored columns of a row of a block\<close>

lemma stored_column_cases:
  assumes wf: "symgs_wellformed A" and i: "i < nblocks A"
    and row: "offsets A ! i \<le> row" "row < offsets A ! i + sizes A ! i"
    and p: "p < ell_width A"
    and c: "0 \<le> ell_col_ind A ! (p * localNumberOfRows A + row)"
           "ell_col_ind A ! (p * localNumberOfRows A + row) < int (localNumberOfColumns A)"
  shows "(p < diag_idx A ! row \<and> ell_col_ind A ! (p * localNumberOfRows A + row) < int (offsets A ! i)) \<or>
         (p = diag_idx A ! row \<and> ell_col_ind A ! (p * localNumberOfRows A + row) = int row) \<or>
         (diag_idx A ! row < p \<and> int (offsets A ! i + sizes A ! i) \<le> ell_col_ind A ! (p * localNumberOfRows A + row))"
proof -
  let ?c = "ell_col_ind A ! (p * localNumberOfRows A + row)"
  have bt: "block_table_wellformed A" and dw: "diagonal_wellformed A" and so: "slots_ordered A"
    and bi: "blocks_independent A"
    using wf unfolding symgs_wellformed_def by simp_all
  have rm: "row < localNumberOfRows A" using block_end[OF bt i] row by simp
  have ord: "(p < diag_idx A ! row \<longrightarrow> ?c < int row) \<and> (diag_idx A ! row < p \<longrightarrow> int row < ?c)"
    using so rm p c unfolding slots_ordered_def by blast
  have dg: "ell_col_ind A ! (diag_idx A ! row * localNumberOfRows A + row) = int row"
    using dw rm unfolding diagonal_wellformed_def by blast
  have ind: "?c \<noteq> int row \<Longrightarrow> \<not> in_block (offsets A ! i) (sizes A ! i) (nat ?c)"
    using bi i row p c unfolding blocks_independent_def block_independent_def by simp
  consider "p < diag_idx A ! row" | "p = diag_idx A ! row" | "diag_idx A ! row < p" by linarith
  then show ?thesis
  proof cases
    case 1
    then have lt: "?c < int row" using ord by simp
    then have "\<not> in_block (offsets A ! i) (sizes A ! i) (nat ?c)" using ind by simp
    then have "?c < int (offsets A ! i)" using lt row c(1) unfolding in_block_def by linarith
    with 1 show ?thesis by simp
  next
    case 2
    then show ?thesis using dg by simp
  next
    case 3
    then have gt: "int row < ?c" using ord by simp
    then have "\<not> in_block (offsets A ! i) (sizes A ! i) (nat ?c)" using ind by simp
    then have "int (offsets A ! i + sizes A ! i) \<le> ?c" using gt row c(1) unfolding in_block_def by linarith
    with 3 show ?thesis by simp
  qed
qed

lemma stored_column_slots:
  assumes wf: "symgs_wellformed A" and i: "i < nblocks A"
    and row: "offsets A ! i \<le> row" "row < offsets A ! i + sizes A ! i"
    and p: "p < ell_width A"
    and c: "0 \<le> ell_col_ind A ! (p * localNumberOfRows A + row)"
           "ell_col_ind A ! (p * localNumberOfRows A + row) < int (localNumberOfColumns A)"
  shows "p < diag_idx A ! row \<Longrightarrow> ell_col_ind A ! (p * localNumberOfRows A + row) < int (offsets A ! i)"
    and "p = diag_idx A ! row \<Longrightarrow> ell_col_ind A ! (p * localNumberOfRows A + row) = int row"
    and "diag_idx A ! row < p \<Longrightarrow>
           int (offsets A ! i + sizes A ! i) \<le> ell_col_ind A ! (p * localNumberOfRows A + row)"
  using stored_column_cases[OF wf i row p c] by linarith+

lemma zero_fwd_sum_eq:
  assumes wf: "symgs_wellformed A" and i: "i < nblocks A"
    and row: "offsets A ! i \<le> row" "row < offsets A ! i + sizes A ! i"
  shows "row_sum (\<lambda>c. 0 \<le> c \<and> c < int (offsets A ! i)) (localNumberOfRows A) (ell_col_ind A)
           (ell_val A) y row [0..<diag_idx A ! row]
         = lower_sum A y row"
proof -
  let ?m = "localNumberOfRows A" let ?n = "localNumberOfColumns A"
  let ?d = "diag_idx A ! row" let ?w = "ell_width A"
  let ?L = "\<lambda>c. 0 \<le> c \<and> c < int ?n \<and> c < int row"
  have bt: "block_table_wellformed A" and dw: "diagonal_wellformed A" and mn: "?m \<le> ?n"
    using wf unfolding symgs_wellformed_def by simp_all
  have rm: "row < ?m" and om: "offsets A ! i \<le> ?m" using block_end[OF bt i] row by simp_all
  have d: "?d < ?w" using dw rm unfolding diagonal_wellformed_def by blast
  have "lower_sum A y row = row_sum ?L ?m (ell_col_ind A) (ell_val A) y row [0..<?d]
                          + row_sum ?L ?m (ell_col_ind A) (ell_val A) y row [?d..<?w]"
    unfolding lower_sum_def using upt_split[of ?d ?w] d by (simp add: row_sum_append[symmetric])
  also have "row_sum ?L ?m (ell_col_ind A) (ell_val A) y row [?d..<?w]
             = row_sum (\<lambda>c. False) ?m (ell_col_ind A) (ell_val A) y row [?d..<?w]"
  proof (rule row_sum_eqI)
    fix p assume "p \<in> set [?d..<?w]"
    then have p: "?d \<le> p" "p < ?w" by simp_all
    have "\<not> ?L (ell_col_ind A ! (p * ?m + row))"
    proof
      assume L: "?L (ell_col_ind A ! (p * ?m + row))"
      then have v: "0 \<le> ell_col_ind A ! (p * ?m + row)" "ell_col_ind A ! (p * ?m + row) < int ?n"
        by simp_all
      consider "p = ?d" | "?d < p" using p(1) by linarith
      then show False
      proof cases
        case 1
        then show ?thesis using stored_column_slots(2)[OF wf i row p(2) v] L by simp
      next
        case 2
        then show ?thesis using stored_column_slots(3)[OF wf i row p(2) v] L row(2) by simp
      qed
    qed
    then show "(if ?L (ell_col_ind A ! (p * ?m + row))
                then ell_val A ! (p * ?m + row) * y ! nat (ell_col_ind A ! (p * ?m + row)) else 0)
             = (if False then ell_val A ! (p * ?m + row) * y ! nat (ell_col_ind A ! (p * ?m + row)) else 0)"
      by (simp only: if_not_P if_False)
  qed
  also have "\<dots> = 0" by (simp add: row_sum_def)
  also have "row_sum ?L ?m (ell_col_ind A) (ell_val A) y row [0..<?d]
           = row_sum (\<lambda>c. 0 \<le> c \<and> c < int (offsets A ! i)) ?m (ell_col_ind A) (ell_val A) y row [0..<?d]"
  proof (rule row_sum_eqI)
    fix p assume "p \<in> set [0..<?d]"
    then have p: "p < ?d" "p < ?w" using d by simp_all
    let ?c = "ell_col_ind A ! (p * ?m + row)"
    have "?L ?c = (0 \<le> ?c \<and> ?c < int (offsets A ! i))"
    proof
      assume "?L ?c"
      then show "0 \<le> ?c \<and> ?c < int (offsets A ! i)"
        using stored_column_slots(1)[OF wf i row p(2) _ _ p(1)] by simp
    next
      assume "0 \<le> ?c \<and> ?c < int (offsets A ! i)"
      then show "?L ?c" using om mn row(1) by simp
    qed
    then show "(if ?L ?c then ell_val A ! (p * ?m + row) * y ! nat ?c else 0)
             = (if 0 \<le> ?c \<and> ?c < int (offsets A ! i) then ell_val A ! (p * ?m + row) * y ! nat ?c else 0)"
      by simp
  qed
  finally show ?thesis by simp
qed

lemma zero_bwd_sum_eq:
  assumes wf: "symgs_wellformed A" and i: "i < nblocks A"
    and row: "offsets A ! i \<le> row" "row < offsets A ! i + sizes A ! i"
    and gz: "zero_from A (localNumberOfRows A) y"
  shows "row_sum (\<lambda>c. int (offsets A ! i) \<le> c \<and> c < int (localNumberOfRows A)) (localNumberOfRows A)
           (ell_col_ind A) (ell_val A) y row [diag_idx A ! row + 1..<ell_width A]
         = upper_sum A y row"
proof -
  let ?m = "localNumberOfRows A" let ?n = "localNumberOfColumns A"
  let ?d = "diag_idx A ! row" let ?w = "ell_width A"
  let ?U = "\<lambda>c. 0 \<le> c \<and> c < int ?n \<and> int row < c"
  have bt: "block_table_wellformed A" and dw: "diagonal_wellformed A" and mn: "?m \<le> ?n"
    using wf unfolding symgs_wellformed_def by simp_all
  have rm: "row < ?m" and om: "offsets A ! i \<le> ?m" using block_end[OF bt i] row by simp_all
  have d: "?d < ?w" using dw rm unfolding diagonal_wellformed_def by blast
  have "upper_sum A y row = row_sum ?U ?m (ell_col_ind A) (ell_val A) y row [0..<?d + 1]
                          + row_sum ?U ?m (ell_col_ind A) (ell_val A) y row [?d + 1..<?w]"
    unfolding upper_sum_def using upt_split[of "?d + 1" ?w] d by (simp add: row_sum_append[symmetric])
  also have "row_sum ?U ?m (ell_col_ind A) (ell_val A) y row [0..<?d + 1]
             = row_sum (\<lambda>c. False) ?m (ell_col_ind A) (ell_val A) y row [0..<?d + 1]"
  proof (rule row_sum_eqI)
    fix p assume "p \<in> set [0..<?d + 1]"
    then have p: "p \<le> ?d" "p < ?w" using d by auto
    have "\<not> ?U (ell_col_ind A ! (p * ?m + row))"
    proof
      assume U: "?U (ell_col_ind A ! (p * ?m + row))"
      then have v: "0 \<le> ell_col_ind A ! (p * ?m + row)" "ell_col_ind A ! (p * ?m + row) < int ?n"
        by simp_all
      consider "p = ?d" | "p < ?d" using p(1) by linarith
      then show False
      proof cases
        case 1
        then show ?thesis using stored_column_slots(2)[OF wf i row p(2) v] U by simp
      next
        case 2
        then show ?thesis using stored_column_slots(1)[OF wf i row p(2) v] U row(1) by simp
      qed
    qed
    then show "(if ?U (ell_col_ind A ! (p * ?m + row))
                then ell_val A ! (p * ?m + row) * y ! nat (ell_col_ind A ! (p * ?m + row)) else 0)
             = (if False then ell_val A ! (p * ?m + row) * y ! nat (ell_col_ind A ! (p * ?m + row)) else 0)"
      by (simp only: if_not_P if_False)
  qed
  also have "\<dots> = 0" by (simp add: row_sum_def)
  also have "row_sum ?U ?m (ell_col_ind A) (ell_val A) y row [?d + 1..<?w]
           = row_sum (\<lambda>c. int (offsets A ! i) \<le> c \<and> c < int ?m) ?m (ell_col_ind A) (ell_val A) y row [?d + 1..<?w]"
  proof (rule row_sum_eqI)
    fix p assume "p \<in> set [?d + 1..<?w]"
    then have p: "?d < p" "p < ?w" by simp_all
    let ?c = "ell_col_ind A ! (p * ?m + row)"
    show "(if ?U ?c then ell_val A ! (p * ?m + row) * y ! nat ?c else 0)
        = (if int (offsets A ! i) \<le> ?c \<and> ?c < int ?m then ell_val A ! (p * ?m + row) * y ! nat ?c else 0)"
    proof (cases "0 \<le> ?c \<and> ?c < int ?n")
      case True
      then have big: "int (offsets A ! i + sizes A ! i) \<le> ?c"
        using stored_column_slots(3)[OF wf i row p(2) _ _ p(1)] by simp
      then have U: "?U ?c" using True row(2) by simp
      show ?thesis
      proof (cases "?c < int ?m")
        case True
        then show ?thesis using U big by simp
      next
        case False
        then have "y ! nat ?c = 0" using zero_fromD[OF gz, of ?c] True by simp
        then show ?thesis by simp
      qed
    next
      case False
      then show ?thesis using mn by auto
    qed
  qed
  finally show ?thesis by simp
qed

subsection \<open>What the threads of the solver kernels do to their row\<close>

lemma off_diag_sum_split:
  "row_sum (\<lambda>c. 0 \<le> c \<and> c < int (localNumberOfColumns A) \<and> c \<noteq> int row)
     (localNumberOfRows A) (ell_col_ind A) (ell_val A) y row [0..<ell_width A]
   = lower_sum A y row + upper_sum A y row"
  unfolding lower_sum_def upper_sum_def by (rule row_sum_split) auto

lemma row_in_block:
  assumes wf: "symgs_wellformed A" and i: "i < nblocks A" and gid: "gid < sizes A ! i"
  shows "offsets A ! i \<le> gid + offsets A ! i" "gid + offsets A ! i < offsets A ! i + sizes A ! i"
    "gid + offsets A ! i < localNumberOfRows A" "gid + offsets A ! i < localNumberOfColumns A"
    "diag_val A (gid + offsets A ! i) \<noteq> 0"
    "inv_diag A ! (gid + offsets A ! i) = 1 / diag_val A (gid + offsets A ! i)"
proof -
  have bt: "block_table_wellformed A" and dw: "diagonal_wellformed A"
    and mn: "localNumberOfRows A \<le> localNumberOfColumns A"
    using wf unfolding symgs_wellformed_def by simp_all
  show "offsets A ! i \<le> gid + offsets A ! i" "gid + offsets A ! i < offsets A ! i + sizes A ! i"
    using gid by simp_all
  show rm: "gid + offsets A ! i < localNumberOfRows A" using block_end[OF bt i] gid by simp
  then show "gid + offsets A ! i < localNumberOfColumns A" using mn by simp
  show "diag_val A (gid + offsets A ! i) \<noteq> 0"
    "inv_diag A ! (gid + offsets A ! i) = 1 / diag_val A (gid + offsets A ! i)"
    using dw rm unfolding diagonal_wellformed_def by blast+
qed

text \<open>the thread of kernel_symgs_sweep is the Gauss-Seidel update of its row\<close>

lemma sweep_thread_gs:
  assumes wf: "symgs_wellformed A" and i: "i < nblocks A" and gid: "gid < sizes A ! i"
  shows "kernel_symgs_sweep_thread (localNumberOfRows A) (localNumberOfColumns A) (offsets A ! i)
           (ell_width A) (ell_col_ind A) (ell_val A) (inv_diag A) r gid y
         = gs_row_update A r (gid + offsets A ! i) y"
  using row_in_block(6)[OF wf i gid]
  by (simp add: kernel_symgs_sweep_thread_def symgs_sweep_fold gs_row_update_def Let_def)

lemma upper_sum_zero:
  assumes "zero_from A row y"
  shows "upper_sum A y row = 0"
  unfolding upper_sum_def
proof (rule row_sum_zeroI)
  fix p
  assume "0 \<le> ell_col_ind A ! (p * localNumberOfRows A + row) \<and>
          ell_col_ind A ! (p * localNumberOfRows A + row) < int (localNumberOfColumns A) \<and>
          int row < ell_col_ind A ! (p * localNumberOfRows A + row)"
  then show "y ! nat (ell_col_ind A ! (p * localNumberOfRows A + row)) = 0"
    using zero_fromD[OF assms, of "ell_col_ind A ! (p * localNumberOfRows A + row)"] by simp
qed

text \<open>the forward step: the value a row gets when everything from the row on is zero\<close>

lemma gs_row_update_forward:
  assumes "zero_from A row y"
  shows "gs_row_update A r row y = y[row := (r ! row - lower_sum A y row) / diag_val A row]"
  by (simp add: gs_row_update_def off_diag_sum_split upper_sum_zero[OF assms])

lemma forward_sweep_0_thread_eq:
  assumes wf: "symgs_wellformed A" and i: "i < nblocks A" and gid: "gid < sizes A ! i"
  shows "kernel_forward_sweep_0_thread (localNumberOfRows A) (offsets A ! i) (ell_col_ind A)
           (ell_val A) (diag_idx A) r gid y
         = Some (y[gid + offsets A ! i :=
               (r ! (gid + offsets A ! i) - lower_sum A y (gid + offsets A ! i))
               / diag_val A (gid + offsets A ! i)])"
  using zero_fwd_sum_eq[OF wf i row_in_block(1,2)[OF wf i gid], of y] row_in_block(5)[OF wf i gid]
  by (simp add: kernel_forward_sweep_0_thread_def forward_sweep_0_fold Let_def diag_val_def)

lemma backward_sweep_0_thread_eq:
  assumes wf: "symgs_wellformed A" and i: "i < nblocks A" and gid: "gid < sizes A ! i"
    and gz: "zero_from A (localNumberOfRows A) y"
    and fr: "fwd_rel A r y (gid + offsets A ! i)"
  shows "kernel_backward_sweep_0_thread (localNumberOfRows A) (offsets A ! i) (ell_width A)
           (ell_col_ind A) (ell_val A) (diag_idx A) gid y
         = Some (gs_row_update A r (gid + offsets A ! i) y)"
proof -
  let ?row = "gid + offsets A ! i"
  have f: "y ! ?row * diag_val A ?row = r ! ?row - lower_sum A y ?row"
    using fr unfolding fwd_rel_def by (simp add: mult.commute)
  have "kernel_backward_sweep_0_thread (localNumberOfRows A) (offsets A ! i) (ell_width A)
           (ell_col_ind A) (ell_val A) (diag_idx A) gid y
        = Some (y[?row := (y ! ?row * diag_val A ?row - upper_sum A y ?row) / diag_val A ?row])"
    using zero_bwd_sum_eq[OF wf i row_in_block(1,2)[OF wf i gid] gz] row_in_block(5)[OF wf i gid]
    by (simp add: kernel_backward_sweep_0_thread_def backward_sweep_0_fold Let_def
        diag_val_def[symmetric])
  also have "y[?row := (y ! ?row * diag_val A ?row - upper_sum A y ?row) / diag_val A ?row]
      = y[?row := (r ! ?row - (lower_sum A y ?row + upper_sum A y ?row)) / diag_val A ?row]"
    unfolding f by (simp add: algebra_simps)
  also have "\<dots> = gs_row_update A r ?row y"
    unfolding gs_row_update_def off_diag_sum_split ..
  finally show ?thesis .
qed

text \<open>block 0: lower_sum vanishes, the interior kernel and the product agree with the update\<close>

lemma lower_sum_block0:
  assumes wf: "symgs_wellformed A" and gid: "gid < sizes A ! 0"
  shows "lower_sum A y gid = 0"
proof -
  have bt: "block_table_wellformed A" using wf unfolding symgs_wellformed_def by simp
  then have i: "0 < nblocks A" and o: "offsets A ! 0 = 0" unfolding block_table_wellformed_def by simp_all
  have "row_sum (\<lambda>c. 0 \<le> c \<and> c < int (offsets A ! 0)) (localNumberOfRows A) (ell_col_ind A)
           (ell_val A) y gid [0..<diag_idx A ! gid] = lower_sum A y gid"
    using zero_fwd_sum_eq[OF wf i, of gid y] gid o by simp
  moreover have "row_sum (\<lambda>c. 0 \<le> c \<and> c < int (offsets A ! 0)) (localNumberOfRows A) (ell_col_ind A)
           (ell_val A) y gid [0..<diag_idx A ! gid] = 0"
    by (rule row_sum_zeroI) (simp add: o)
  ultimately show ?thesis by simp
qed

lemma interior_thread_eq:
  assumes wf: "symgs_wellformed A" and gid: "gid < sizes A ! 0" and z: "zero_from A gid y"
  shows "kernel_symgs_interior_thread (localNumberOfRows A) (ell_width A) (ell_col_ind A)
           (ell_val A) (inv_diag A) r gid y
         = y[gid := r ! gid * inv_diag A ! gid]"
proof -
  have mn: "localNumberOfRows A \<le> localNumberOfColumns A"
    using wf unfolding symgs_wellformed_def by simp
  have "row_sum (\<lambda>c. 0 \<le> c \<and> c < int (localNumberOfRows A) \<and> c \<noteq> int gid) (localNumberOfRows A)
          (ell_col_ind A) (ell_val A) y gid [0..<ell_width A]
        = lower_sum A y gid"
    unfolding lower_sum_def
  proof (rule row_sum_eqI)
    fix p
    let ?c = "ell_col_ind A ! (p * localNumberOfRows A + gid)"
    show "(if 0 \<le> ?c \<and> ?c < int (localNumberOfRows A) \<and> ?c \<noteq> int gid
           then ell_val A ! (p * localNumberOfRows A + gid) * y ! nat ?c else 0)
        = (if 0 \<le> ?c \<and> ?c < int (localNumberOfColumns A) \<and> ?c < int gid
           then ell_val A ! (p * localNumberOfRows A + gid) * y ! nat ?c else 0)"
    proof (cases "0 \<le> ?c \<and> ?c < int (localNumberOfColumns A) \<and> int gid < ?c")
      case True
      then have "y ! nat ?c = 0" using zero_fromD[OF z, of ?c] by simp
      then show ?thesis using True by simp
    next
      case False
      have "gid < localNumberOfRows A" using row_in_block(3)[OF wf _ gid] wf
        unfolding symgs_wellformed_def block_table_wellformed_def by simp
      then show ?thesis using False mn by auto
    qed
  qed
  then show ?thesis
    by (simp add: kernel_symgs_interior_thread_def symgs_sweep_fold Let_def lower_sum_block0[OF wf gid])
qed

subsection \<open>Two folds that agree step by step\<close>

lemma fold_agree:
  assumes "I 0 y"
    and "\<And>j z. j < length xs \<Longrightarrow> I j z \<Longrightarrow> f (xs ! j) z = g (xs ! j) z \<and> I (Suc j) (f (xs ! j) z)"
  shows "fold f xs y = fold g xs y \<and> I (length xs) (fold f xs y)"
  using assms(2)
proof (induction xs rule: rev_induct)
  case Nil
  then show ?case using assms(1) by simp
next
  case (snoc x xs)
  have "fold f xs y = fold g xs y \<and> I (length xs) (fold f xs y)"
  proof (rule snoc.IH)
    fix j z assume j: "j < length xs" and "I j z"
    then have h: "f ((xs @ [x]) ! j) z = g ((xs @ [x]) ! j) z \<and> I (Suc j) (f ((xs @ [x]) ! j) z)"
      by (intro snoc.prems) simp_all
    have e: "(xs @ [x]) ! j = xs ! j" using j by (simp add: nth_append)
    from h[unfolded e] show "f (xs ! j) z = g (xs ! j) z \<and> I (Suc j) (f (xs ! j) z)" .
  qed
  then have a: "fold f xs y = fold g xs y" and b: "I (length xs) (fold f xs y)" by blast+
  have h: "f ((xs @ [x]) ! length xs) (fold f xs y) = g ((xs @ [x]) ! length xs) (fold f xs y)
        \<and> I (Suc (length xs)) (f ((xs @ [x]) ! length xs) (fold f xs y))"
    using b by (intro snoc.prems) simp_all
  have n: "(xs @ [x]) ! length xs = x" by simp
  from h[unfolded n] have c: "f x (fold f xs y) = g x (fold f xs y)"
    and d: "I (Suc (length xs)) (f x (fold f xs y))"
    by blast+
  have "fold f (xs @ [x]) y = f x (fold f xs y)" "fold g (xs @ [x]) y = g x (fold g xs y)" by simp_all
  then show ?case using a c d by simp
qed

lemma fold_bind_agree:
  assumes "I 0 y"
    and "\<And>j z. j < length xs \<Longrightarrow> I j z \<Longrightarrow>
           g (xs ! j) z = Some (f (xs ! j) z) \<and> I (Suc j) (f (xs ! j) z)"
  shows "fold (\<lambda>a y. Option.bind y (g a)) xs (Some y) = Some (fold f xs y) \<and>
         I (length xs) (fold f xs y)"
  using assms(2)
proof (induction xs rule: rev_induct)
  case Nil
  then show ?case using assms(1) by simp
next
  case (snoc x xs)
  have "fold (\<lambda>a y. Option.bind y (g a)) xs (Some y) = Some (fold f xs y) \<and>
        I (length xs) (fold f xs y)"
  proof (rule snoc.IH)
    fix j z assume j: "j < length xs" and "I j z"
    then have h: "g ((xs @ [x]) ! j) z = Some (f ((xs @ [x]) ! j) z)
                  \<and> I (Suc j) (f ((xs @ [x]) ! j) z)"
      by (intro snoc.prems) simp_all
    have e: "(xs @ [x]) ! j = xs ! j" using j by (simp add: nth_append)
    from h[unfolded e] show "g (xs ! j) z = Some (f (xs ! j) z) \<and> I (Suc j) (f (xs ! j) z)" .
  qed
  then have a: "fold (\<lambda>a y. Option.bind y (g a)) xs (Some y) = Some (fold f xs y)"
    and b: "I (length xs) (fold f xs y)" by blast+
  have h: "g ((xs @ [x]) ! length xs) (fold f xs y) = Some (f ((xs @ [x]) ! length xs) (fold f xs y))
        \<and> I (Suc (length xs)) (f ((xs @ [x]) ! length xs) (fold f xs y))"
    using b by (intro snoc.prems) simp_all
  have n: "(xs @ [x]) ! length xs = x" by simp
  from h[unfolded n] have c: "g x (fold f xs y) = Some (f x (fold f xs y))"
    and d: "I (Suc (length xs)) (f x (fold f xs y))"
    by blast+
  have "fold (\<lambda>a y. Option.bind y (g a)) (xs @ [x]) (Some y)
        = Option.bind (fold (\<lambda>a y. Option.bind y (g a)) xs (Some y)) (g x)"
    by simp
  also have "\<dots> = Some (f x (fold f xs y))" unfolding a using c by simp
  finally show ?case using d by simp
qed

subsection \<open>Updates of one entry and the forward relation\<close>

lemma lower_sum_update:
  assumes "\<And>p. p < ell_width A \<Longrightarrow>
             0 \<le> ell_col_ind A ! (p * localNumberOfRows A + j) \<Longrightarrow>
             ell_col_ind A ! (p * localNumberOfRows A + j) < int (localNumberOfColumns A) \<Longrightarrow>
             ell_col_ind A ! (p * localNumberOfRows A + j) < int j \<Longrightarrow>
             nat (ell_col_ind A ! (p * localNumberOfRows A + j)) \<noteq> row"
  shows "lower_sum A (y[row := v]) j = lower_sum A y j"
  unfolding lower_sum_def
proof (rule row_sum_cong)
  fix p
  assume "p \<in> set [0..<ell_width A]"
    and "0 \<le> ell_col_ind A ! (p * localNumberOfRows A + j) \<and>
         ell_col_ind A ! (p * localNumberOfRows A + j) < int (localNumberOfColumns A) \<and>
         ell_col_ind A ! (p * localNumberOfRows A + j) < int j"
  then have "nat (ell_col_ind A ! (p * localNumberOfRows A + j)) \<noteq> row"
    by (intro assms) simp_all
  then show "y[row := v] ! nat (ell_col_ind A ! (p * localNumberOfRows A + j))
             = y ! nat (ell_col_ind A ! (p * localNumberOfRows A + j))"
    by simp
qed

lemma lower_sum_update_le:
  assumes "j \<le> row"
  shows "lower_sum A (y[row := v]) j = lower_sum A y j"
  by (rule lower_sum_update) (use assms in linarith)

lemma lower_sum_update_block:
  assumes wf: "symgs_wellformed A" and i: "i < nblocks A"
    and j: "offsets A ! i \<le> j" "j < offsets A ! i + sizes A ! i"
    and row: "offsets A ! i \<le> row" "row < offsets A ! i + sizes A ! i"
  shows "lower_sum A (y[row := v]) j = lower_sum A y j"
proof (rule lower_sum_update)
  fix p
  let ?c = "ell_col_ind A ! (p * localNumberOfRows A + j)"
  assume p: "p < ell_width A" and c: "0 \<le> ?c" "?c < int (localNumberOfColumns A)" "?c < int j"
  have "blocks_independent A" using wf unfolding symgs_wellformed_def by simp
  then have "\<not> in_block (offsets A ! i) (sizes A ! i) (nat ?c)"
    using i j p c unfolding blocks_independent_def block_independent_def by simp
  then show "nat ?c \<noteq> row" using row unfolding in_block_def by auto
qed

lemma fwd_rel_update:
  assumes "j \<noteq> row" and "lower_sum A (y[row := v]) j = lower_sum A y j"
  shows "fwd_rel A r (y[row := v]) j = fwd_rel A r y j"
  using assms by (simp add: fwd_rel_def)

lemma zero_from_update:
  assumes "zero_from A k y" "row < k'" "k \<le> k'"
  shows "zero_from A k' (y[row := v])"
  using assms unfolding zero_from_def by simp

subsection \<open>One step of the forward and of the backward pass\<close>

lemma fwd_step:
  assumes wf: "symgs_wellformed A" and i: "i < nblocks A" and gid: "gid < sizes A ! i"
    and inv: "fwd_inv A r (gid + offsets A ! i) y"
  shows "fwd_inv A r (Suc (gid + offsets A ! i))
           (y[gid + offsets A ! i :=
                (r ! (gid + offsets A ! i) - lower_sum A y (gid + offsets A ! i))
                / diag_val A (gid + offsets A ! i)])"
proof -
  let ?row = "gid + offsets A ! i"
  let ?v = "(r ! ?row - lower_sum A y ?row) / diag_val A ?row"
  have z: "zero_from A ?row y" and fr: "\<forall>j<?row. fwd_rel A r y j"
    using inv unfolding fwd_inv_def by simp_all
  have len: "?row < length y" using z row_in_block(4)[OF wf i gid] unfolding zero_from_def by simp
  have "zero_from A (Suc ?row) (y[?row := ?v])" using z by (rule zero_from_update) simp_all
  moreover have "fwd_rel A r (y[?row := ?v]) j" if "j < Suc ?row" for j
  proof (cases "j = ?row")
    case True
    have "diag_val A ?row * ?v = r ! ?row - lower_sum A y ?row"
      using row_in_block(5)[OF wf i gid] by simp
    then show ?thesis
      unfolding True fwd_rel_def using len by (simp add: lower_sum_update_le)
  next
    case False
    then have "j < ?row" using that by simp
    then show ?thesis using fr False by (simp add: fwd_rel_update lower_sum_update_le)
  qed
  ultimately show ?thesis unfolding fwd_inv_def by blast
qed

lemma bwd_step:
  assumes wf: "symgs_wellformed A" and i: "i < nblocks A" and gid: "gid < sizes A ! i"
    and inv: "bwd_inv A r (offsets A ! i) (gid + offsets A ! i) (offsets A ! i + sizes A ! i) y"
  shows "bwd_inv A r (offsets A ! i) (Suc (gid + offsets A ! i)) (offsets A ! i + sizes A ! i)
           (gs_row_update A r (gid + offsets A ! i) y)"
proof -
  let ?row = "gid + offsets A ! i"
  obtain v where upd: "gs_row_update A r ?row y = y[?row := v]"
    unfolding gs_row_update_def by blast
  have z: "zero_from A (localNumberOfRows A) y"
    and fr: "\<forall>j. j < offsets A ! i \<or> (?row \<le> j \<and> j < offsets A ! i + sizes A ! i) \<longrightarrow> fwd_rel A r y j"
    using inv unfolding bwd_inv_def by simp_all
  have "zero_from A (localNumberOfRows A) (y[?row := v])"
    using z row_in_block(3)[OF wf i gid] by (rule zero_from_update) simp
  moreover have "fwd_rel A r (y[?row := v]) j"
    if "j < offsets A ! i \<or> (Suc ?row \<le> j \<and> j < offsets A ! i + sizes A ! i)" for j
  proof -
    have ne: "j \<noteq> ?row" using that by auto
    have old: "fwd_rel A r y j" using fr that by auto
    have "lower_sum A (y[?row := v]) j = lower_sum A y j"
    proof (cases "j < offsets A ! i")
      case True
      then show ?thesis by (intro lower_sum_update_le) simp
    next
      case False
      then have "offsets A ! i \<le> j" "j < offsets A ! i + sizes A ! i" using that by simp_all
      then show ?thesis
        by (rule lower_sum_update_block[OF wf i _ _ row_in_block(1,2)[OF wf i gid]])
    qed
    then show ?thesis using old ne by (simp add: fwd_rel_update)
  qed
  ultimately show ?thesis unfolding upd bwd_inv_def by blast
qed

subsection \<open>The launches of the two solvers agree\<close>

lemma fwd_block_agree:
  assumes wf: "symgs_wellformed A" and i: "i < nblocks A"
    and inv: "fwd_inv A r (offsets A ! i) y"
  shows "forward_sweep_0_block A r i y = Some (symgs_sweep_block A r i y) \<and>
         fwd_inv A r (offsets A ! Suc i) (symgs_sweep_block A r i y)"
proof -
  let ?f = "kernel_symgs_sweep_thread (localNumberOfRows A) (localNumberOfColumns A) (offsets A ! i)
           (ell_width A) (ell_col_ind A) (ell_val A) (inv_diag A) r"
  let ?g = "kernel_forward_sweep_0_thread (localNumberOfRows A) (offsets A ! i) (ell_col_ind A)
           (ell_val A) (diag_idx A) r"
  let ?I = "\<lambda>j z. fwd_inv A r (j + offsets A ! i) z"
  have bt: "block_table_wellformed A" using wf unfolding symgs_wellformed_def by simp
  have "fold (\<lambda>a y. Option.bind y (?g a)) [0..<sizes A ! i] (Some y)
          = Some (fold ?f [0..<sizes A ! i] y) \<and>
        ?I (length [0..<sizes A ! i]) (fold ?f [0..<sizes A ! i] y)"
  proof (rule fold_bind_agree)
    show "?I 0 y" using inv by simp
  next
    fix j z assume "j < length [0..<sizes A ! i]" and I: "?I j z"
    then have gid: "j < sizes A ! i" and nth: "[0..<sizes A ! i] ! j = j" by simp_all
    have z: "zero_from A (j + offsets A ! i) z" using I unfolding fwd_inv_def by simp
    have "?f j z = gs_row_update A r (j + offsets A ! i) z" by (rule sweep_thread_gs[OF wf i gid])
    also have "\<dots> = z[j + offsets A ! i := (r ! (j + offsets A ! i) - lower_sum A z (j + offsets A ! i))
                                          / diag_val A (j + offsets A ! i)]"
      by (rule gs_row_update_forward[OF z])
    finally have f: "?f j z = z[j + offsets A ! i := (r ! (j + offsets A ! i) - lower_sum A z (j + offsets A ! i))
                                          / diag_val A (j + offsets A ! i)]" .
    have g: "?g j z = Some (z[j + offsets A ! i := (r ! (j + offsets A ! i) - lower_sum A z (j + offsets A ! i))
                                          / diag_val A (j + offsets A ! i)])"
      by (rule forward_sweep_0_thread_eq[OF wf i gid])
    have "?I (Suc j) (?f j z)" unfolding f using fwd_step[OF wf i gid I] by simp
    then show "?g ([0..<sizes A ! i] ! j) z = Some (?f ([0..<sizes A ! i] ! j) z) \<and>
               ?I (Suc j) (?f ([0..<sizes A ! i] ! j) z)"
      unfolding nth using f g by simp
  qed
  note h = this[unfolded length_upt diff_zero]
  from h have eq: "fold (\<lambda>a y. Option.bind y (?g a)) [0..<sizes A ! i] (Some y)
          = Some (fold ?f [0..<sizes A ! i] y)"
    and fin: "fwd_inv A r (sizes A ! i + offsets A ! i) (fold ?f [0..<sizes A ! i] y)"
    by blast+
  have e: "sizes A ! i + offsets A ! i = offsets A ! Suc i"
    using block_end(1)[OF bt i] by simp
  show ?thesis
    unfolding symgs_sweep_block_def forward_sweep_0_block_def kernel_symgs_sweep_def
      kernel_forward_sweep_0_def
    using eq fin[unfolded e] by blast
qed

lemma block0_agree:
  assumes wf: "symgs_wellformed A" and inv: "fwd_inv A r 0 y"
  shows "symgs_interior_block A r y = pointwise_mult_block A r y \<and>
         fwd_inv A r (offsets A ! Suc 0) (symgs_interior_block A r y)"
proof -
  let ?f = "kernel_symgs_interior_thread (localNumberOfRows A) (ell_width A) (ell_col_ind A)
           (ell_val A) (inv_diag A) r"
  let ?g = "\<lambda>gid out. out[gid := r ! gid * inv_diag A ! gid]"
  let ?I = "\<lambda>j z. fwd_inv A r j z"
  have bt: "block_table_wellformed A" using wf unfolding symgs_wellformed_def by simp
  then have i: "0 < nblocks A" and o: "offsets A ! 0 = 0"
    unfolding block_table_wellformed_def by simp_all
  have "fold ?f [0..<sizes A ! 0] y = fold ?g [0..<sizes A ! 0] y \<and>
        ?I (length [0..<sizes A ! 0]) (fold ?f [0..<sizes A ! 0] y)"
  proof (rule fold_agree)
    show "?I 0 y" using inv by simp
  next
    fix j z assume "j < length [0..<sizes A ! 0]" and I: "?I j z"
    then have gid: "j < sizes A ! 0" and nth: "[0..<sizes A ! 0] ! j = j" by simp_all
    have z: "zero_from A j z" using I unfolding fwd_inv_def by simp
    have f: "?f j z = z[j := r ! j * inv_diag A ! j]" by (rule interior_thread_eq[OF wf gid z])
    have "r ! j * inv_diag A ! j = (r ! j - lower_sum A z j) / diag_val A j"
      using row_in_block(6)[OF wf i gid] lower_sum_block0[OF wf gid] o by simp
    then have "?I (Suc j) (?f j z)"
      unfolding f using fwd_step[OF wf i gid, of r z] I o by simp
    then show "?f ([0..<sizes A ! 0] ! j) z = ?g ([0..<sizes A ! 0] ! j) z \<and>
               ?I (Suc j) (?f ([0..<sizes A ! 0] ! j) z)"
      unfolding nth using f by simp
  qed
  note h = this[unfolded length_upt diff_zero]
  from h have eq: "fold ?f [0..<sizes A ! 0] y = fold ?g [0..<sizes A ! 0] y"
    and fin: "fwd_inv A r (sizes A ! 0) (fold ?f [0..<sizes A ! 0] y)"
    by blast+
  have e: "sizes A ! 0 = offsets A ! Suc 0"
    using block_end(1)[OF bt i] o by simp
  show ?thesis
    unfolding symgs_interior_block_def pointwise_mult_block_def kernel_symgs_interior_def
      kernel_pointwise_mult_def
    using eq fin unfolding e by blast
qed

lemma bwd_block_agree:
  assumes wf: "symgs_wellformed A" and i: "i < nblocks A"
    and inv: "bwd_inv A r (offsets A ! Suc i) (offsets A ! Suc i) (offsets A ! Suc i) y"
  shows "backward_sweep_0_block A i y = Some (symgs_sweep_block A r i y) \<and>
         bwd_inv A r (offsets A ! i) (offsets A ! i) (offsets A ! i) (symgs_sweep_block A r i y)"
proof -
  let ?f = "kernel_symgs_sweep_thread (localNumberOfRows A) (localNumberOfColumns A) (offsets A ! i)
           (ell_width A) (ell_col_ind A) (ell_val A) (inv_diag A) r"
  let ?g = "kernel_backward_sweep_0_thread (localNumberOfRows A) (offsets A ! i) (ell_width A)
           (ell_col_ind A) (ell_val A) (diag_idx A)"
  let ?o = "offsets A ! i" let ?s = "sizes A ! i"
  let ?I = "\<lambda>j z. bwd_inv A r ?o (j + ?o) (?o + ?s) z"
  have bt: "block_table_wellformed A" using wf unfolding symgs_wellformed_def by simp
  have e: "offsets A ! Suc i = ?o + ?s" using block_end(1)[OF bt i] by simp
  have "fold (\<lambda>a y. Option.bind y (?g a)) [0..<?s] (Some y) = Some (fold ?f [0..<?s] y)
        \<and> ?I (length [0..<?s]) (fold ?f [0..<?s] y)"
  proof (rule fold_bind_agree)
    show "?I 0 y" using inv unfolding e bwd_inv_def by auto
  next
    fix j z assume "j < length [0..<?s]" and I: "?I j z"
    then have gid: "j < ?s" and nth: "[0..<?s] ! j = j" by simp_all
    have z: "zero_from A (localNumberOfRows A) z" and fr: "fwd_rel A r z (j + ?o)"
      using I gid unfolding bwd_inv_def by simp_all
    have f: "?f j z = gs_row_update A r (j + ?o) z" by (rule sweep_thread_gs[OF wf i gid])
    have g: "?g j z = Some (gs_row_update A r (j + ?o) z)"
      by (rule backward_sweep_0_thread_eq[OF wf i gid z fr])
    have "?I (Suc j) (?f j z)" unfolding f using bwd_step[OF wf i gid I] by simp
    then show "?g ([0..<?s] ! j) z = Some (?f ([0..<?s] ! j) z) \<and> ?I (Suc j) (?f ([0..<?s] ! j) z)"
      unfolding nth using f g by simp
  qed
  note h = this[unfolded length_upt diff_zero]
  from h have eq: "fold (\<lambda>a y. Option.bind y (?g a)) [0..<?s] (Some y) = Some (fold ?f [0..<?s] y)"
    and fin: "bwd_inv A r ?o (?s + ?o) (?o + ?s) (fold ?f [0..<?s] y)" by blast+
  have "bwd_inv A r ?o (?s + ?o) (?o + ?s) z \<Longrightarrow> bwd_inv A r ?o ?o ?o z" for z
    unfolding bwd_inv_def by auto
  then have fin': "bwd_inv A r ?o ?o ?o (fold ?f [0..<?s] y)" using fin by blast
  show ?thesis
    unfolding symgs_sweep_block_def backward_sweep_0_block_def kernel_symgs_sweep_def
      kernel_backward_sweep_0_def
    using eq fin' by blast
qed

lemma halo_launch_zero:
  assumes gh: "\<forall>row < halo_rows A. \<forall>p < ell_width A.
          0 \<le> halo_col_ind A ! (p * halo_rows A + row) \<and>
          halo_col_ind A ! (p * halo_rows A + row) < int (localNumberOfColumns A)
          \<longrightarrow> int (localNumberOfRows A) \<le> halo_col_ind A ! (p * halo_rows A + row)"
    and z: "zero_from A (localNumberOfRows A) y"
  shows "symgs_halo_launch A y = y"
proof -
  let ?th = "kernel_symgs_halo_thread (halo_rows A) (localNumberOfColumns A) (sizes A ! 0)
      (ell_width A) (halo_row_ind A) (halo_col_ind A) (halo_val A) (inv_diag A) (perm A)"
  have th: "?th row y = y" if "row < halo_rows A" for row
  proof -
    have "row_sum (\<lambda>c. 0 \<le> c \<and> c < int (localNumberOfColumns A)) (halo_rows A) (halo_col_ind A)
            (halo_val A) y row [0..<ell_width A] = 0"
    proof (rule row_sum_zeroI)
      fix p assume p: "p \<in> set [0..<ell_width A]"
        and c: "0 \<le> halo_col_ind A ! (p * halo_rows A + row) \<and>
                halo_col_ind A ! (p * halo_rows A + row) < int (localNumberOfColumns A)"
      then have "int (localNumberOfRows A) \<le> halo_col_ind A ! (p * halo_rows A + row)"
        using gh that by simp
      then show "y ! nat (halo_col_ind A ! (p * halo_rows A + row)) = 0"
        using zero_fromD[OF z] c by simp
    qed
    then show ?thesis
      by (simp add: kernel_symgs_halo_thread_def symgs_halo_fold fma_def Let_def)
  qed
  have "fold ?th [0..<k] y = y" if "k \<le> halo_rows A" for k
    using that by (induction k) (simp_all add: th)
  then show ?thesis unfolding symgs_halo_launch_def kernel_symgs_halo_def by simp
qed

subsection \<open>The passes of the two solvers agree\<close>


lemma forward_pass_agree:
  assumes wf: "symgs_wellformed A" and inv: "fwd_inv A r (offsets A ! Suc 0) y"
  shows "fold (\<lambda>i y. Option.bind y (forward_sweep_0_block A r i)) [1..<nblocks A] (Some y)
           = Some (fold (symgs_sweep_block A r) [1..<nblocks A] y) \<and>
         fwd_inv A r (localNumberOfRows A) (fold (symgs_sweep_block A r) [1..<nblocks A] y)"
proof -
  let ?I = "\<lambda>j z. fwd_inv A r (offsets A ! Suc j) z"
  have bt: "block_table_wellformed A" using wf unfolding symgs_wellformed_def by simp
  then have nb: "0 < nblocks A" and last: "offsets A ! nblocks A = localNumberOfRows A"
    unfolding block_table_wellformed_def by simp_all
  have "fold (\<lambda>i y. Option.bind y (forward_sweep_0_block A r i)) [1..<nblocks A] (Some y)
           = Some (fold (symgs_sweep_block A r) [1..<nblocks A] y) \<and>
        ?I (length [1..<nblocks A]) (fold (symgs_sweep_block A r) [1..<nblocks A] y)"
  proof (rule fold_bind_agree)
    show "?I 0 y" by (rule inv)
  next
    fix j z assume j: "j < length [1..<nblocks A]" and I: "?I j z"
    then have i: "Suc j < nblocks A" and nth: "[1..<nblocks A] ! j = Suc j" by simp_all
    show "forward_sweep_0_block A r ([1..<nblocks A] ! j) z
            = Some (symgs_sweep_block A r ([1..<nblocks A] ! j) z) \<and>
          ?I (Suc j) (symgs_sweep_block A r ([1..<nblocks A] ! j) z)"
      unfolding nth by (rule fwd_block_agree[OF wf i I])
  qed
  then have eq: "fold (\<lambda>i y. Option.bind y (forward_sweep_0_block A r i)) [1..<nblocks A] (Some y)
           = Some (fold (symgs_sweep_block A r) [1..<nblocks A] y)"
    and fin: "?I (length [1..<nblocks A]) (fold (symgs_sweep_block A r) [1..<nblocks A] y)"
    by blast+
  have "Suc (length [1..<nblocks A]) = nblocks A" using nb by simp
  then have "offsets A ! Suc (length [1..<nblocks A]) = localNumberOfRows A" using last by simp
  then have "fwd_inv A r (localNumberOfRows A) (fold (symgs_sweep_block A r) [1..<nblocks A] y)"
    using fin by simp
  then show ?thesis using eq by blast
qed

lemma backward_pass_agree:
  assumes wf: "symgs_wellformed A" and u: "u \<le> nblocks A"
    and inv: "bwd_inv A r (offsets A ! u) (offsets A ! u) (offsets A ! u) y"
  shows "fold (\<lambda>i y. Option.bind y (backward_sweep_0_block A i)) (rev [0..<u]) (Some y)
           = Some (fold (symgs_sweep_block A r) (rev [0..<u]) y)"
proof -
  let ?I = "\<lambda>j z. bwd_inv A r (offsets A ! (u - j)) (offsets A ! (u - j)) (offsets A ! (u - j)) z"
  have "fold (\<lambda>i y. Option.bind y (backward_sweep_0_block A i)) (rev [0..<u]) (Some y)
           = Some (fold (symgs_sweep_block A r) (rev [0..<u]) y) \<and>
        ?I (length (rev [0..<u])) (fold (symgs_sweep_block A r) (rev [0..<u]) y)"
  proof (rule fold_bind_agree)
    show "?I 0 y" using inv by simp
  next
    fix j z assume j: "j < length (rev [0..<u])" and I: "?I j z"
    then have ju: "j < u" by simp
    then have nth: "rev [0..<u] ! j = u - Suc j" by (simp add: rev_nth)
    have i: "u - Suc j < nblocks A" using ju u by simp
    have e: "Suc (u - Suc j) = u - j" using ju by simp
    have I': "bwd_inv A r (offsets A ! Suc (u - Suc j)) (offsets A ! Suc (u - Suc j))
                (offsets A ! Suc (u - Suc j)) z"
      unfolding e by (rule I)
    show "backward_sweep_0_block A (rev [0..<u] ! j) z = Some (symgs_sweep_block A r (rev [0..<u] ! j) z) \<and>
          ?I (Suc j) (symgs_sweep_block A r (rev [0..<u] ! j) z)"
      unfolding nth by (rule bwd_block_agree[OF wf i I'])
  qed
  then show ?thesis by blast
qed

lemma fwd_inv_bwd_inv:
  assumes wf: "symgs_wellformed A" and u: "u \<le> nblocks A"
    and inv: "fwd_inv A r (localNumberOfRows A) y"
  shows "bwd_inv A r (offsets A ! u) (offsets A ! u) (offsets A ! u) y"
proof -
  have bt: "block_table_wellformed A" using wf unfolding symgs_wellformed_def by simp
  have "offsets A ! u \<le> offsets A ! nblocks A" using u by (intro offsets_mono[OF bt]) simp_all
  then have "offsets A ! u \<le> localNumberOfRows A"
    using bt unfolding block_table_wellformed_def by simp
  then show ?thesis using inv unfolding fwd_inv_def bwd_inv_def by auto
qed

lemma zero_from_mono:
  assumes "zero_from A k y" "k \<le> k'"
  shows "zero_from A k' y"
  using assms unfolding zero_from_def by simp

subsection \<open>The forward sweep of the zero-guess variant, launch by launch\<close>

lemma forward_sweep_upto_1:
  "forward_sweep_upto A r 1 x = Some (pointwise_mult_block A r x)"
  by (simp add: forward_sweep_upto_def)

lemma forward_sweep_upto_Suc:
  assumes "0 < i"
  shows "forward_sweep_upto A r (Suc i) x
         = Option.bind (forward_sweep_upto A r i x) (forward_sweep_0_block A r i)"
proof -
  have "[1..<Suc i] = [1..<i] @ [i]" using assms by simp
  then show ?thesis by (simp add: forward_sweep_upto_def)
qed

lemma length_pointwise_mult_block [simp]:
  "length (pointwise_mult_block A r x) = length x"
proof -
  have "length (fold (\<lambda>gid out. out[gid := f gid]) xs out) = length out"
    for f :: "nat \<Rightarrow> real" and xs out
    by (induction xs arbitrary: out) simp_all
  then show ?thesis unfolding pointwise_mult_block_def kernel_pointwise_mult_def .
qed

lemma forward_sweep_0_block_rows:
  assumes bt: "block_table_wellformed A" and i: "i < nblocks A"
    and len: "localNumberOfRows A \<le> length y"
    and nz: "\<forall>row < localNumberOfRows A. diag_val A row \<noteq> 0"
  shows "forward_sweep_0_block A r i y
         = Some (map (\<lambda>row. if in_block (offsets A ! i) (sizes A ! i) row
                             then zero_guess_row_value A i r y row else y ! row)
                     [0..<length y])"
proof -
  have e: "offsets A ! i + sizes A ! i \<le> length y"
    using block_end[OF bt i] len by simp
  have "\<forall>gid < sizes A ! i. ell_val A ! (diag_idx A ! (gid + offsets A ! i) * localNumberOfRows A
            + (gid + offsets A ! i)) \<noteq> 0"
  proof (intro allI impI)
    fix gid assume "gid < sizes A ! i"
    then have "gid + offsets A ! i < localNumberOfRows A" using block_end[OF bt i] by simp
    then show "ell_val A ! (diag_idx A ! (gid + offsets A ! i) * localNumberOfRows A
            + (gid + offsets A ! i)) \<noteq> 0"
      using nz unfolding diag_val_def by blast
  qed
  from kernel_forward_sweep_0_rows[OF e this]
  show ?thesis unfolding forward_sweep_0_block_def zero_guess_row_value_def .
qed

lemma forward_sweep_upto_Some:
  assumes bt: "block_table_wellformed A" and len: "localNumberOfRows A \<le> length x"
    and nz: "\<forall>row < localNumberOfRows A. diag_val A row \<noteq> 0"
    and i: "0 < i" "i \<le> nblocks A"
  shows "\<exists>y. forward_sweep_upto A r i x = Some y \<and> length y = length x"
  using i
proof (induction i)
  case 0
  then show ?case by simp
next
  case (Suc i)
  show ?case
  proof (cases "i = 0")
    case True
    then show ?thesis using forward_sweep_upto_1[of A r x] by simp
  next
    case False
    then have i: "0 < i" "i \<le> nblocks A" "i < nblocks A" using Suc.prems by simp_all
    from Suc.IH[OF i(1,2)] obtain y where y: "forward_sweep_upto A r i x = Some y"
      "length y = length x" by blast
    have ly: "localNumberOfRows A \<le> length y" using len y(2) by simp
    show ?thesis
      unfolding forward_sweep_upto_Suc[OF i(1)] y(1)
      using forward_sweep_0_block_rows[OF bt i(3) ly nz, of r] y(2) by simp
  qed
qed

text \<open>the columns below the offset of a block are rows of earlier blocks\<close>

lemma below_offset_earlier:
  assumes bt: "block_table_wellformed A" and i: "i \<le> nblocks A" and c: "c < offsets A ! i"
  shows "\<exists>j<i. in_block (offsets A ! j) (sizes A ! j) c"
  using i c
proof (induction i)
  case 0
  then show ?case using bt unfolding block_table_wellformed_def by simp
next
  case (Suc i)
  have i: "i < nblocks A" using Suc.prems by simp
  have e: "offsets A ! Suc i = offsets A ! i + sizes A ! i" using block_end(1)[OF bt i] by simp
  show ?case
  proof (cases "c < offsets A ! i")
    case True
    with Suc.IH i obtain j where "j < i" "in_block (offsets A ! j) (sizes A ! j) c" by auto
    then show ?thesis using less_SucI by blast
  next
    case False
    then have "in_block (offsets A ! i) (sizes A ! i) c"
      using Suc.prems(2) e by (simp add: in_block_def)
    then show ?thesis by blast
  qed
qed

section \<open>Lemmas: from the colouring to the sweep over the rows\<close>

subsection \<open>The permutation at the end of JPLColoring\<close>

lemma length_kernel_create_perm [simp]:
  "length (kernel_create_perm sz inp out) = length out"
proof -
  have "length (fold (\<lambda>gid out. out[inp ! gid := int gid]) xs out) = length out" for xs
    by (induction xs arbitrary: out) simp_all
  then show ?thesis unfolding kernel_create_perm_def .
qed





subsection \<open>Updates of entries that do not read each other\<close>





subsection \<open>The forward pass as a sweep over the rows\<close>








subsection \<open>The backward pass as a sweep over the rows\<close>


lemma length_gs_row_update [simp]: "length (gs_row_update A r row y) = length y"
  by (simp add: gs_row_update_def)

lemma length_fold_gs [simp]: "length (fold (gs_row_update A r) rows y) = length y"
  by (induction rows arbitrary: y) simp_all





subsection \<open>Block 0: the interior kernel, the exchange and the boundary corrector\<close>












subsection \<open>Runs on the example matrices\<close>





























section \<open>Claims about the colouring engine\<close>

text \<open>
  Claim C8, amended.  In a launch of \<open>kernel_jpl\<close> an uncoloured row is compared with the
  stored neighbours that are uncoloured or hold one of the two candidate colours.  It
  receives \<open>color1\<close> when its hash is a strict maximum over them; it receives \<open>color2\<close> when
  its hash is a strict minimum and not a strict maximum (a row with no such neighbour is both,
  and receives \<open>color1\<close>); otherwise it stays uncoloured, in particular when one of those
  neighbours has the same hash.  No other entry of the colour array changes.
\<close>

theorem kernel_jpl_row_rule:
  assumes "row < length colors" and "colors ! row = -1"
  shows "kernel_jpl_row m hash color1 color2 mtxIndL w colors row
         = colors[row :=
             (if strict_local_max hash (compared_neighbours m color1 color2 mtxIndL w colors row) row
              then color1
              else if strict_local_min hash (compared_neighbours m color1 color2 mtxIndL w colors row) row
              then color2 else -1)]
         \<and> ((\<exists>c \<in> set (compared_neighbours m color1 color2 mtxIndL w colors row).
                hash ! c = hash ! row)
            \<longrightarrow> kernel_jpl_row m hash color1 color2 mtxIndL w colors row = colors)"
proof
  show eq: "kernel_jpl_row m hash color1 color2 mtxIndL w colors row
         = colors[row :=
             (if strict_local_max hash (compared_neighbours m color1 color2 mtxIndL w colors row) row
              then color1
              else if strict_local_min hash (compared_neighbours m color1 color2 mtxIndL w colors row) row
              then color2 else -1)]"
    using assms by (simp add: kernel_jpl_row_eq jpl_new_color_def)
  show "(\<exists>c \<in> set (compared_neighbours m color1 color2 mtxIndL w colors row). hash ! c = hash ! row)
            \<longrightarrow> kernel_jpl_row m hash color1 color2 mtxIndL w colors row = colors"
  proof
    assume "\<exists>c \<in> set (compared_neighbours m color1 color2 mtxIndL w colors row). hash ! c = hash ! row"
    then obtain c where "c \<in> set (compared_neighbours m color1 color2 mtxIndL w colors row)"
      "hash ! c = hash ! row" by blast
    then have "\<not> strict_local_max hash (compared_neighbours m color1 color2 mtxIndL w colors row) row"
      "\<not> strict_local_min hash (compared_neighbours m color1 color2 mtxIndL w colors row) row"
      unfolding strict_local_max_def strict_local_min_def by force+
    then show "kernel_jpl_row m hash color1 color2 mtxIndL w colors row = colors"
      unfolding eq using assms(2) list_update_id[of colors row] by simp
  qed
qed

theorem kernel_jpl_row_rule_witness:
  "(0::nat) < length [-1, -1, -1 :: int] \<and> [-1, -1, -1 :: int] ! 0 = -1 \<and>
   kernel_jpl_row 3 [1, 2, 3] 0 1 [-1, 0, 1,  0, 1, 2,  1, 2, -1] 3 [-1, -1, -1] 0 = [1, -1, -1]"
  using kernel_jpl_row_rule[of 0 "[-1, -1, -1]" 3 "[1, 2, 3]" 0 1 "[-1, 0, 1,  0, 1, 2,  1, 2, -1]" 3]
  by (simp add: jpl_eval)

text \<open>
  Claim C8 as stated fails: a single uncoloured row without neighbours is a strict local
  minimum, and it receives the first candidate colour (here 4), not the second (here 5).
\<close>

theorem kernel_jpl_row_minimum_counterexample:
  "strict_local_min [7] (compared_neighbours 1 4 5 [0] 1 [-1] 0) 0 \<and>
   kernel_jpl_row 1 [7] 4 5 [0] 1 [-1] 0 = [4]"
  by (simp add: kernel_jpl_row_eq jpl_eval)

text \<open>
  Claim C7, amended.  In each of the first 4 rounds (as long as fewer than 8 blocks have been
  recorded) both candidate colours are values \<open>rand() % 8\<close>, in the palette \<open>{0..7}\<close>.  In
  every later round \<open>k\<close> (counted from 0) the candidates are \<open>2 * k\<close> and \<open>2 * k + 1\<close>, both
  larger than every colour nominated in an earlier round: two brand-new colours.
\<close>

theorem round_colors_rule:
  "(k < 4 \<longrightarrow>
      round_color1 rnd (JPL_state_at rnd A k) = int (rnd (2 * k) mod 8) \<and>
      round_color2 rnd (JPL_state_at rnd A k) = int (rnd (2 * k + 1) mod 8) \<and>
      round_color1 rnd (JPL_state_at rnd A k) \<in> {0..7} \<and>
      round_color2 rnd (JPL_state_at rnd A k) \<in> {0..7}) \<and>
   (4 \<le> k \<longrightarrow>
      round_color1 rnd (JPL_state_at rnd A k) = int (2 * k) \<and>
      round_color2 rnd (JPL_state_at rnd A k) = int (2 * k + 1) \<and>
      (\<forall>j<k. round_color1 rnd (JPL_state_at rnd A j) < int (2 * k) \<and>
              round_color2 rnd (JPL_state_at rnd A j) < int (2 * k)))"
proof (intro conjI impI)
  assume "k < 4"
  then have k: "2 * k < 8" "2 * k + 1 < 8" by simp_all
  show "round_color1 rnd (JPL_state_at rnd A k) = int (rnd (2 * k) mod 8)"
    "round_color2 rnd (JPL_state_at rnd A k) = int (rnd (2 * k + 1) mod 8)"
    using k by (simp_all add: state_at_colors nominated_def)
  then show "round_color1 rnd (JPL_state_at rnd A k) \<in> {0..7}"
    "round_color2 rnd (JPL_state_at rnd A k) \<in> {0..7}"
    by simp_all
next
  assume "4 \<le> k"
  then have k: "\<not> 2 * k < 8" "\<not> 2 * k + 1 < 8" by simp_all
  show "round_color1 rnd (JPL_state_at rnd A k) = int (2 * k)"
    "round_color2 rnd (JPL_state_at rnd A k) = int (2 * k + 1)"
    using k by (simp_all add: state_at_colors nominated_def)
  show "\<forall>j<k. round_color1 rnd (JPL_state_at rnd A j) < int (2 * k) \<and>
               round_color2 rnd (JPL_state_at rnd A j) < int (2 * k)"
  proof (intro allI impI)
    fix j assume "j < k"
    then have "nominated rnd (2 * j) < int (2 * k)" "nominated rnd (2 * j + 1) < int (2 * k)"
      using \<open>4 \<le> k\<close> by (auto simp: nominated_def)
    then show "round_color1 rnd (JPL_state_at rnd A j) < int (2 * k) \<and>
               round_color2 rnd (JPL_state_at rnd A j) < int (2 * k)"
      by (simp add: state_at_colors)
  qed
qed

theorem round_colors_rule_witness:
  "(2::nat) < 4 \<and> round_color1 rand_glibc (JPL_state_at rand_glibc path9 2) = 4 \<and>
   round_color2 rand_glibc (JPL_state_at rand_glibc path9 2) = 3 \<and>
   (4::nat) \<le> 4 \<and> round_color1 rand_glibc (JPL_state_at rand_glibc path9 4) = 8 \<and>
   round_color2 rand_glibc (JPL_state_at rand_glibc path9 4) = 9 \<and>
   round_color2 rand_glibc (JPL_state_at rand_glibc path9 3) < 8"
  using round_colors_rule[of 2 rand_glibc path9] round_colors_rule[of 4 rand_glibc path9]
  by (simp add: rand_glibc_def)

text \<open>
  Claim C7 as stated fails: on the chain of 9 rows the loop is still running when the fifth
  round starts (8 of the 9 rows are coloured), and the fifth round, one of the first 8,
  nominates the colour 8, which is not in the palette.
\<close>

theorem round_colors_fifth_round_counterexample:
  "colored (JPL_state_at rand_glibc path9 0) \<noteq> localNumberOfRows path9 \<and>
   colored (JPL_state_at rand_glibc path9 1) \<noteq> localNumberOfRows path9 \<and>
   colored (JPL_state_at rand_glibc path9 2) \<noteq> localNumberOfRows path9 \<and>
   colored (JPL_state_at rand_glibc path9 3) \<noteq> localNumberOfRows path9 \<and>
   colored (JPL_state_at rand_glibc path9 4) \<noteq> localNumberOfRows path9 \<and>
   round_color1 rand_glibc (JPL_state_at rand_glibc path9 4) = 8 \<and>
   round_color1 rand_glibc (JPL_state_at rand_glibc path9 4) \<notin> {0..7}"
proof -
  have "localNumberOfRows path9 = 9" by (simp add: path9_def)
  then show ?thesis
    by (simp add: path9_rounds state_at_colors nominated_def del: One_nat_def)
qed

text \<open>
  Claim C10, amended.  The round loop has no bound on the number of rounds and signals no
  colouring failure: it runs until the count of coloured rows equals the number of rows, and
  a run that does not get there ends by writing behind the \<open>MAX_COLORS\<close> entries of \<open>sizes\<close>
  and \<open>offsets\<close>.  \<open>JPLColoring\<close> returns, with every row coloured after at most
  \<open>localNumberOfRows\<close> rounds, when no row has the hash of one of its stored neighbours, the
  eight values \<open>rand() % 8\<close> that nominate the colours of the first four rounds are pairwise
  distinct, \<open>numberOfNonzerosPerRow\<close> is at least 1 and at most 512 (so that the launch
  configuration has a block size other than 0), and twice the number of rows is below
  \<open>MAX_COLORS\<close> (so that the block table has room for two blocks per round).
\<close>

theorem JPL_loop_terminates_rule:
  assumes "no_hash_ties A" and "distinct_draws rnd"
    and "0 < numberOfNonzerosPerRow A" and "numberOfNonzerosPerRow A \<le> 512"
    and "2 * localNumberOfRows A < max_colors"
  shows "\<exists>A'. JPLColoring max_colors rnd reference A = Inr A' \<and>
              all_colored (localNumberOfRows A) (perm A') \<and>
              nblocks A' \<le> 2 * localNumberOfRows A"
proof -
  let ?bs = "JPL_blocksize (numberOfNonzerosPerRow A)"
  have bs: "?bs \<noteq> 0" by (rule JPL_blocksize_pos[OF assms(4)])
  have cap: "nblocks (mat (JPL_init A))
               + 2 * (localNumberOfRows (mat (JPL_init A)) - colored (JPL_init A)) < max_colors"
    using assms(5) by (simp add: JPL_init_fields JPL_init_def)
  have ties: "no_hash_ties (mat (JPL_init A))" using assms(1) by simp
  from JPL_loop_terminates[OF color_inv_init assms(2) ties bs cap]
  obtain s where s: "JPL_loop max_colors ?bs rnd (JPL_init A) = Inr s"
    "nblocks (mat s) \<le> 2 * localNumberOfRows A"
    by (auto simp: JPL_init_fields JPL_init_def)
  have ac: "all_colored (localNumberOfRows A) (perm (mat s))"
    by (rule JPL_loop_all_colored[OF s(1) assms(2)])
  let ?A' = "(mat s)\<lparr> ublocks := (if reference then int (nblocks (mat s)) - 1
                                    else int (nblocks (mat s)) - 1 - 1) \<rparr>"
  have "JPLColoring max_colors rnd reference A = Inr ?A'"
    using assms(3,5) s(1) by (simp add: JPLColoring_def)
  moreover have "all_colored (localNumberOfRows A) (perm ?A')" using ac by simp
  moreover have "nblocks ?A' \<le> 2 * localNumberOfRows A" using s(2) by simp
  ultimately show ?thesis by blast
qed

theorem JPL_loop_terminates_rule_witness:
  "no_hash_ties path3 \<and> distinct_draws rand_glibc \<and>
   0 < numberOfNonzerosPerRow path3 \<and> numberOfNonzerosPerRow path3 \<le> 512 \<and>
   2 * localNumberOfRows path3 < (128::nat) \<and>
   (\<exists>A'. JPLColoring 128 rand_glibc False path3 = Inr A' \<and>
         all_colored (localNumberOfRows path3) (perm A') \<and>
         nblocks A' \<le> 2 * localNumberOfRows path3)"
proof -
  have h: "0 < numberOfNonzerosPerRow path3" "numberOfNonzerosPerRow path3 \<le> 512"
    "2 * localNumberOfRows path3 < (128::nat)"
    by (simp_all add: path3_rows)
  show ?thesis
    using JPL_loop_terminates_rule[OF path3_no_ties distinct_draws_glibc h, of False]
      path3_no_ties distinct_draws_glibc h
    by simp
qed

text \<open>
  Claim C10 as stated fails.  On two adjacent rows with the same hash no round colours any
  row and the count stays 0: the loop goes on until the block table is full and the next
  round writes behind it; no row is coloured and no failure is signalled.  A matrix with no
  slot per row, or with more than 512, stops the run with a division by zero although it has
  no tie.  With room for 4 blocks only, the chain of 3 rows, which needs two rounds, is not
  coloured either.
\<close>

theorem JPL_loop_tie_counterexample:
  "JPLColoring 128 rand_glibc False tie_pair = Inl OutOfBounds \<and>
   JPLColoring 128 rand_glibc False no_slot_row = Inl DivisionByZero \<and>
   JPLColoring 128 rand_glibc False wide_row = Inl DivisionByZero \<and>
   JPLColoring 4 rand_glibc False path3 = Inl OutOfBounds"
proof (intro conjI)
  have "JPL_blocksize 2 \<noteq> 0" by (rule JPL_blocksize_pos) simp
  then show "JPLColoring 128 rand_glibc False tie_pair = Inl OutOfBounds"
    using tie_pair_breaks[of "JPL_blocksize 2" 128 rand_glibc]
    by (simp add: JPLColoring_def tie_pair_def)
  show "JPLColoring 128 rand_glibc False no_slot_row = Inl DivisionByZero"
    by (simp add: JPLColoring_def no_slot_row_def)
  have "JPL_blocksize 513 = 0" by (rule JPL_blocksize_wide) simp
  moreover have "colored (JPL_init wide_row) \<noteq> localNumberOfRows (mat (JPL_init wide_row))"
    by (simp add: JPL_init_def wide_row_def)
  ultimately show "JPLColoring 128 rand_glibc False wide_row = Inl DivisionByZero"
    using JPL_loop_no_launch[of "JPL_init wide_row" 128 rand_glibc]
    by (simp add: JPLColoring_def wide_row_def)
  have "JPL_blocksize 3 \<noteq> 0" by (rule JPL_blocksize_pos) simp
  then show "JPLColoring 4 rand_glibc False path3 = Inl OutOfBounds"
    using path3_short[of "JPL_blocksize 3"] by (simp add: JPLColoring_def path3_rows)
qed

text \<open>
  Claim C3.  When the round loop of \<open>JPLColoring\<close> terminates, every row has a colour
  different from \<open>-1\<close>, and the sum of all recorded block sizes equals \<open>localNumberOfRows\<close>.
  The values of \<open>rand()\<close> are those that follow \<open>srand(RNG_SEED)\<close>; the capacity of the
  block table and the block size of the launches are arbitrary.
\<close>

theorem JPL_loop_complete:
  assumes "JPL_loop max_colors blocksize rand_glibc (JPL_init A) = Inr s"
  shows "all_colored (localNumberOfRows A) (perm (mat s)) \<and>
         sum_list (sizes (mat s)) = localNumberOfRows A"
  using JPL_loop_sizes[OF assms] JPL_loop_all_colored[OF assms distinct_draws_glibc] by blast

theorem JPL_loop_complete_witness:
  "JPL_loop 128 128 rand_glibc (JPL_init path3) = Inr (JPL_state_at rand_glibc path3 2) \<and>
   perm (mat (JPL_state_at rand_glibc path3 2)) = [7, 1, 0] \<and>
   sizes (mat (JPL_state_at rand_glibc path3 2)) = [1, 1, 1, 0] \<and>
   all_colored (localNumberOfRows path3) (perm (mat (JPL_state_at rand_glibc path3 2))) \<and>
   sum_list (sizes (mat (JPL_state_at rand_glibc path3 2))) = localNumberOfRows path3"
proof -
  have run: "JPL_loop 128 128 rand_glibc (JPL_init path3) = Inr (JPL_state_at rand_glibc path3 2)"
    by (rule path3_run) simp_all
  show ?thesis using JPL_loop_complete[OF run] run path3_states(4,5) by simp
qed

text \<open>
  Claim C2, amended.  After \<open>JPLColoring\<close> terminates on a matrix whose adjacency lists are
  well-formed and symmetric (with every stored entry \<open>(r, c)\<close> the entry \<open>(c, r)\<close> is
  stored), and when no colour has been nominated twice, the colours are a proper distance-1
  colouring: \<open>color[r] \<noteq> color[c]\<close> for every stored off-diagonal entry \<open>(r, c)\<close>.
\<close>

theorem JPLColoring_proper:
  assumes "JPLColoring max_colors rnd reference A = Inr A'"
    and "wellformed_adjacency A" and "symmetric_adjacency A" and "distinct_draws rnd"
  shows "proper_coloring A (perm A')"
proof -
  from assms(1) obtain s where
    s: "JPL_loop max_colors (JPL_blocksize (numberOfNonzerosPerRow A)) rnd (JPL_init A) = Inr s"
    and A': "A' = (mat s)\<lparr> ublocks := (if reference then int (nblocks (mat s)) - 1
                                  else int (nblocks (mat s)) - 1 - 1) \<rparr>"
    by (rule JPLColoring_Inr)
  have "proper_coloring A (perm (mat s))" by (rule JPL_loop_proper[OF s assms(4,3)])
  then show ?thesis by (simp add: A')
qed

theorem JPLColoring_proper_witness:
  "wellformed_adjacency path3 \<and> symmetric_adjacency path3 \<and> distinct_draws rand_glibc \<and>
   (\<exists>A'. JPLColoring 128 rand_glibc False path3 = Inr A' \<and> perm A' = [7, 1, 0] \<and>
         proper_coloring path3 (perm A'))"
proof -
  have wf: "wellformed_adjacency path3"
    by (simp add: wellformed_adjacency_def path3_def bounded_eval upt_rec[of _ "numeral _"]
        upt_rec[of _ "Suc _"])
  have bs: "JPL_blocksize 3 \<noteq> 0" by (rule JPL_blocksize_pos) simp
  obtain A' where A': "JPLColoring 128 rand_glibc False path3 = Inr A'" "perm A' = [7, 1, 0]"
    using path3_run[OF bs, of 128] by (simp add: JPLColoring_def path3_rows path3_states)
  have "proper_coloring path3 (perm A')"
    by (rule JPLColoring_proper[OF A'(1) wf path3_symmetric distinct_draws_glibc])
  with wf A' path3_symmetric distinct_draws_glibc show ?thesis by blast
qed

text \<open>
  Claim C2 as stated fails: the adjacency lists of \<open>one_way_cycle\<close> are well-formed (every
  column in range, one self-loop per row) but not symmetric; the first round colours rows 0
  and 1 with the same colour although the entry \<open>(0, 1)\<close> is stored, and the loop ends.
\<close>

theorem JPLColoring_one_way_counterexample:
  "wellformed_adjacency one_way_cycle \<and> stored_entry one_way_cycle 0 1 \<and>
   map_sum id perm (JPLColoring 128 rand_glibc False one_way_cycle) = Inr [0, 0, 7] \<and>
   \<not> proper_coloring one_way_cycle [0, 0, 7]"
proof -
  have "wellformed_adjacency one_way_cycle"
    by (simp add: wellformed_adjacency_def one_way_cycle_def bounded_eval upt_rec[of _ "numeral _"]
        upt_rec[of _ "Suc _"])
  moreover have st: "stored_entry one_way_cycle 0 1"
    by (simp add: stored_entry_def one_way_cycle_def bounded_eval)
  moreover have "map_sum id perm (JPLColoring 128 rand_glibc False one_way_cycle) = Inr [0, 0, 7]"
  proof -
    have bs: "JPL_blocksize 2 \<noteq> 0" by (rule JPL_blocksize_pos) simp
    have w: "numberOfNonzerosPerRow one_way_cycle = 2" by (simp add: one_way_cycle_def)
    show ?thesis
      using one_way_cycle_run[OF bs, of 128]
      by (simp add: JPLColoring_def w one_way_cycle_states del: One_nat_def)
  qed
  moreover have "\<not> proper_coloring one_way_cycle [0, 0, 7]"
  proof
    assume p: "proper_coloring one_way_cycle [0, 0, 7]"
    have "(0::nat) < localNumberOfRows one_way_cycle" "(1::nat) < localNumberOfRows one_way_cycle"
      by (simp_all add: one_way_cycle_def)
    with p st have "[0, 0, 7 :: int] ! 0 \<noteq> [0, 0, 7] ! 1"
      unfolding proper_coloring_def by blast
    then show False by simp
  qed
  ultimately show ?thesis by blast
qed

section \<open>Claims about the solver kernels\<close>

text \<open>
  Claim C4, amended.  In the forward pass of \<open>ComputeSYMGS\<close>, the launch for a block other
  than block 0 gives each row of the block the value
  \<open>(r[row] - sum) * invDiag[row]\<close>, where the sum runs over all stored off-diagonal columns
  of the row below \<open>localNumberOfColumns\<close>, those at or above the offset of the block
  included, each multiplied by the entry of \<open>x\<close> before the launch; the other entries of
  \<open>x\<close> stay as they are.  This holds when no row of the block stores a column of its own
  block apart from itself.
\<close>

theorem symgs_sweep_block_rows:
  assumes "offsets A ! i + sizes A ! i \<le> length x" and "localNumberOfColumns A \<le> length x"
    and "block_independent (\<lambda>row c. 0 \<le> c \<and> c < int (localNumberOfColumns A) \<and> c \<noteq> int row)
           (localNumberOfRows A) (offsets A ! i) (sizes A ! i) (ell_width A) (ell_col_ind A)"
  shows "symgs_sweep_block A r i x
         = map (\<lambda>row. if in_block (offsets A ! i) (sizes A ! i) row
                       then sweep_row_value A r x row else x ! row) [0..<length x]"
  unfolding symgs_sweep_block_def sweep_row_value_def
  by (rule kernel_symgs_sweep_rows[OF assms])

theorem symgs_sweep_block_rows_witness:
  "offsets chain3 ! 1 + sizes chain3 ! 1 \<le> length [0, 0, 1 :: real] \<and>
   localNumberOfColumns chain3 \<le> length [0, 0, 1 :: real] \<and>
   block_independent (\<lambda>row c. 0 \<le> c \<and> c < int (localNumberOfColumns chain3) \<and> c \<noteq> int row)
     (localNumberOfRows chain3) (offsets chain3 ! 1) (sizes chain3 ! 1) (ell_width chain3)
     (ell_col_ind chain3) \<and>
   symgs_sweep_block chain3 [1, 1, 1] 1 [0, 0, 1] = [0, 1, 1]"
proof -
  have h: "offsets chain3 ! 1 + sizes chain3 ! 1 \<le> length [0, 0, 1 :: real]"
    "localNumberOfColumns chain3 \<le> length [0, 0, 1 :: real]"
    "block_independent (\<lambda>row c. 0 \<le> c \<and> c < int (localNumberOfColumns chain3) \<and> c \<noteq> int row)
     (localNumberOfRows chain3) (offsets chain3 ! 1) (sizes chain3 ! 1) (ell_width chain3)
     (ell_col_ind chain3)"
    by (simp_all add: chain3_def block_independent_def in_block_def bounded_eval)
  have "symgs_sweep_block chain3 [1, 1, 1] 1 [0, 0, 1] = [0, 1, 1]"
    unfolding symgs_sweep_block_rows[OF h]
    by (simp add: sweep_row_value_def row_sum_def in_block_def chain3_def upt_eval)
  with h show ?thesis by blast
qed

text \<open>
  Claim C4 as stated fails: row 1 of \<open>chain3\<close> is block 1 (offset 1) and stores the column 2,
  above the offset.  With the guess \<open>x = [0, 0, 1]\<close> the launch gives the row the value 1,
  which counts the column 2; the sum restricted to the columns below the offset gives 1/2.
\<close>

theorem symgs_sweep_below_offset_counterexample:
  "symgs_sweep_block chain3 [1, 1, 1] 1 [0, 0, 1] ! 1 = 1 \<and>
   below_offset_row_value chain3 1 [1, 1, 1] [0, 0, 1] 1 = 1 / 2"
  by (simp add: symgs_sweep_block_def chain3_def kernel_symgs_sweep_def kernel_symgs_sweep_thread_def
      symgs_sweep_slot_def fma_def Let_def upt_eval below_offset_row_value_def row_sum_def)

text \<open>
  Claim C6.  In the forward sweep of \<open>ComputeSYMGSZeroGuess\<close> the first launch sets every
  row of block 0 to \<open>r[row] * invDiag[row]\<close>, with no neighbour term.  The launch for a later
  block \<open>i\<close> starts from the vector \<open>y\<close> that the launches for the blocks before it have
  left, and sets every row of the block to \<open>r[row]\<close> minus the contributions of the slots
  below its diagonal slot whose column lies below the offset of the block, divided by the
  value stored in the diagonal slot; the precomputed reciprocal is not used.  Every column
  below the offset of the block is a row of an earlier block, so that the values read have
  been updated already.  All other entries stay as they are, and the backward sweep of
  \<open>ComputeSYMGSZeroGuess\<close> starts from the vector that the launch for the last block has
  left.  The block table is consistent, \<open>x\<close> has the length the source asserts, and the
  diagonal entries are not zero, as the source assumes.
\<close>

theorem zero_guess_forward_rows:
  assumes "block_table_wellformed A" and "length x = localNumberOfColumns A"
    and "localNumberOfRows A \<le> localNumberOfColumns A"
    and "\<forall>row < localNumberOfRows A. diag_val A row \<noteq> 0"
  shows "forward_sweep_upto A r 1 x
           = Some (map (\<lambda>row. if row < sizes A ! 0 then r ! row * inv_diag A ! row else x ! row)
                       [0..<length x])
       \<and> (\<forall>i. 0 < i \<and> i < nblocks A \<longrightarrow>
            (\<exists>y. forward_sweep_upto A r i x = Some y \<and>
                 forward_sweep_upto A r (Suc i) x
                   = Some (map (\<lambda>row. if in_block (offsets A ! i) (sizes A ! i) row
                                       then zero_guess_row_value A i r y row else y ! row)
                               [0..<length x]) \<and>
                 (\<forall>c < offsets A ! i. \<exists>j<i. in_block (offsets A ! j) (sizes A ! j) c)))
       \<and> (\<exists>y. forward_sweep_upto A r (nblocks A) x = Some y \<and>
               ComputeSYMGSZeroGuess A r x
                 = (case backward_sweep_from A y of None \<Rightarrow> Inl NotFinite | Some z \<Rightarrow> Inr z))"
proof (intro conjI allI impI)
  have len: "localNumberOfRows A \<le> length x" using assms(2,3) by simp
  have nb: "0 < nblocks A" using assms(1) unfolding block_table_wellformed_def by simp
  have "sizes A ! 0 \<le> length x" using block_end[OF assms(1) nb] len
    using assms(1) unfolding block_table_wellformed_def by simp
  then show "forward_sweep_upto A r 1 x
           = Some (map (\<lambda>row. if row < sizes A ! 0 then r ! row * inv_diag A ! row else x ! row)
                       [0..<length x])"
    unfolding forward_sweep_upto_1 pointwise_mult_block_def
    by (simp add: kernel_pointwise_mult_rows)
  from forward_sweep_upto_Some[OF assms(1) len assms(4) nb order_refl, of r]
  obtain y where y: "forward_sweep_upto A r (nblocks A) x = Some y" by blast
  then have "ComputeSYMGSZeroGuess A r x
      = (case backward_sweep_from A y of None \<Rightarrow> Inl NotFinite | Some z \<Rightarrow> Inr z)"
    using assms(2) by (simp add: ComputeSYMGSZeroGuess_def)
  with y show "\<exists>y. forward_sweep_upto A r (nblocks A) x = Some y \<and>
               ComputeSYMGSZeroGuess A r x
                 = (case backward_sweep_from A y of None \<Rightarrow> Inl NotFinite | Some z \<Rightarrow> Inr z)"
    by blast
  fix i assume i: "0 < i \<and> i < nblocks A"
  then have i': "0 < i" "i \<le> nblocks A" "i < nblocks A" by simp_all
  from forward_sweep_upto_Some[OF assms(1) len assms(4) i'(1,2), of r]
  obtain z where z: "forward_sweep_upto A r i x = Some z" "length z = length x" by blast
  have lz: "localNumberOfRows A \<le> length z" using len z(2) by simp
  have "forward_sweep_upto A r (Suc i) x
      = Some (map (\<lambda>row. if in_block (offsets A ! i) (sizes A ! i) row
                          then zero_guess_row_value A i r z row else z ! row) [0..<length x])"
    unfolding forward_sweep_upto_Suc[OF i'(1)] z(1)
    using forward_sweep_0_block_rows[OF assms(1) i'(3) lz assms(4), of r] z(2) by simp
  moreover have "\<forall>c < offsets A ! i. \<exists>j<i. in_block (offsets A ! j) (sizes A ! j) c"
    using below_offset_earlier[OF assms(1) i'(2)] by blast
  ultimately show "\<exists>y. forward_sweep_upto A r i x = Some y \<and>
                 forward_sweep_upto A r (Suc i) x
                   = Some (map (\<lambda>row. if in_block (offsets A ! i) (sizes A ! i) row
                                       then zero_guess_row_value A i r y row else y ! row)
                               [0..<length x]) \<and>
                 (\<forall>c < offsets A ! i. \<exists>j<i. in_block (offsets A ! j) (sizes A ! j) c)"
    using z(1) by blast
qed

theorem zero_guess_forward_rows_witness:
  "block_table_wellformed chain3 \<and> length [0, 0, 0 :: real] = localNumberOfColumns chain3 \<and>
   localNumberOfRows chain3 \<le> localNumberOfColumns chain3 \<and>
   localNumberOfRows chain3 = 3 \<and>
   diag_val chain3 0 \<noteq> 0 \<and> diag_val chain3 1 \<noteq> 0 \<and> diag_val chain3 2 \<noteq> 0 \<and>
   forward_sweep_upto chain3 [1, 1, 1] 1 [0, 0, 0] = Some [1 / 2, 0, 0] \<and>
   forward_sweep_upto chain3 [1, 1, 1] 2 [0, 0, 0] = Some [1 / 2, 1 / 2, 0] \<and>
   forward_sweep_upto chain3 [1, 1, 1] 3 [0, 0, 0] = Some [1 / 2, 1 / 2, 1]"
proof -
  have h: "block_table_wellformed chain3" "length [0, 0, 0 :: real] = localNumberOfColumns chain3"
    "localNumberOfRows chain3 \<le> localNumberOfColumns chain3"
    "\<forall>row < localNumberOfRows chain3. diag_val chain3 row \<noteq> 0"
    by (simp_all add: block_table_wellformed_def diag_val_def chain3_def bounded_eval
        eval_nat_numeral)
  note t = zero_guess_forward_rows[OF h, of "[1, 1, 1]"]
  have u1: "forward_sweep_upto chain3 [1, 1, 1] 1 [0, 0, 0] = Some [1 / 2, 0, 0]"
    using t by (simp add: chain3_def upt_eval)
  have i1: "0 < (1::nat) \<and> 1 < nblocks chain3" and i2: "0 < (2::nat) \<and> 2 < nblocks chain3"
    by (simp_all add: chain3_def)
  from t i1 obtain y where y: "forward_sweep_upto chain3 [1, 1, 1] 1 [0, 0, 0] = Some y"
    "forward_sweep_upto chain3 [1, 1, 1] (Suc 1) [0, 0, 0]
       = Some (map (\<lambda>row. if in_block (offsets chain3 ! 1) (sizes chain3 ! 1) row
                           then zero_guess_row_value chain3 1 [1, 1, 1] y row else y ! row)
                   [0..<length [0, 0, 0 :: real]])"
    by blast
  have "y = [1 / 2, 0, 0]" using y(1) u1 by simp
  then have u2: "forward_sweep_upto chain3 [1, 1, 1] 2 [0, 0, 0] = Some [1 / 2, 1 / 2, 0]"
    using y(2)
    by (simp add: zero_guess_row_value_def row_sum_def in_block_def chain3_def upt_eval
        numeral_2_eq_2)
  from t i2 obtain z where z: "forward_sweep_upto chain3 [1, 1, 1] 2 [0, 0, 0] = Some z"
    "forward_sweep_upto chain3 [1, 1, 1] (Suc 2) [0, 0, 0]
       = Some (map (\<lambda>row. if in_block (offsets chain3 ! 2) (sizes chain3 ! 2) row
                           then zero_guess_row_value chain3 2 [1, 1, 1] z row else z ! row)
                   [0..<length [0, 0, 0 :: real]])"
    by blast
  have "z = [1 / 2, 1 / 2, 0]" using z(1) u2 by simp
  then have u3: "forward_sweep_upto chain3 [1, 1, 1] 3 [0, 0, 0] = Some [1 / 2, 1 / 2, 1]"
    using z(2)
    by (simp add: zero_guess_row_value_def row_sum_def in_block_def chain3_def upt_eval
        numeral_3_eq_3)
  have d: "localNumberOfRows chain3 = 3" "diag_val chain3 0 \<noteq> 0" "diag_val chain3 1 \<noteq> 0"
    "diag_val chain3 2 \<noteq> 0"
    by (simp_all add: diag_val_def chain3_def)
  show ?thesis using h(1,2,3) d u1 u2 u3 by blast
qed

text \<open>
  Claim C9, amended.  The boundary corrector of \<open>ComputeSYMGS\<close> updates the halo rows whose
  position in the colour-sorted order lies in block 0, and only those: the entry of \<open>x\<close> at
  the position of such a row becomes its value plus the negated halo contributions
  \<open>haloValue * x[ghostCol]\<close> times \<open>invDiag[halo_row_ind[row]]\<close>.  Every other entry of \<open>x\<close>
  stays as it is: the entries of the rows of block 0 that are no halo rows, the entries of
  all rows of later blocks, halo rows or not, and the ghost entries.
\<close>

theorem symgs_halo_launch_rows:
  assumes "halo_wellformed A" and "sizes A ! 0 \<le> length x"
    and "localNumberOfColumns A \<le> length x"
  shows "length (symgs_halo_launch A x) = length x \<and>
         (\<forall>row < halo_rows A.
             perm A ! (halo_row_ind A ! row) < int (sizes A ! 0) \<longrightarrow>
             symgs_halo_launch A x ! nat (perm A ! (halo_row_ind A ! row))
               = halo_corrected_value A x row) \<and>
         (\<forall>i < length x.
             (\<forall>row < halo_rows A. perm A ! (halo_row_ind A ! row) \<noteq> int i \<or>
                                  int (sizes A ! 0) \<le> perm A ! (halo_row_ind A ! row)) \<longrightarrow>
             symgs_halo_launch A x ! i = x ! i)"
proof -
  have wf: "\<forall>row<halo_rows A. 0 \<le> perm A ! (halo_row_ind A ! row)"
    "\<forall>row<halo_rows A. \<forall>row'<halo_rows A.
        row \<noteq> row' \<longrightarrow> perm A ! (halo_row_ind A ! row) \<noteq> perm A ! (halo_row_ind A ! row')"
    "\<forall>row<halo_rows A. \<forall>p<ell_width A.
        0 \<le> halo_col_ind A ! (p * halo_rows A + row) \<and>
        halo_col_ind A ! (p * halo_rows A + row) < int (localNumberOfColumns A)
        \<longrightarrow> int (sizes A ! 0) \<le> halo_col_ind A ! (p * halo_rows A + row)"
    using assms(1) unfolding halo_wellformed_def by blast+
  note pre = kernel_symgs_halo_prefix[OF wf assms(2,3) order_refl, of "halo_val A" "inv_diag A",
      unfolded Let_def, folded kernel_symgs_halo_def symgs_halo_launch_def halo_corrected_value_def]
  show ?thesis
  proof (intro conjI allI impI)
    show "length (symgs_halo_launch A x) = length x" using pre by blast
  next
    fix row assume "row < halo_rows A" "perm A ! (halo_row_ind A ! row) < int (sizes A ! 0)"
    then show "symgs_halo_launch A x ! nat (perm A ! (halo_row_ind A ! row))
               = halo_corrected_value A x row"
      using pre by blast
  next
    fix i assume "i < length x"
      "\<forall>row < halo_rows A. perm A ! (halo_row_ind A ! row) \<noteq> int i \<or>
                           int (sizes A ! 0) \<le> perm A ! (halo_row_ind A ! row)"
    then show "symgs_halo_launch A x ! i = x ! i" using pre by blast
  qed
qed

theorem symgs_halo_launch_rows_witness:
  "halo_wellformed chain4_sorted \<and> sizes chain4_sorted ! 0 \<le> length [1, 1, 1, 1, 3, 5 :: real] \<and>
   localNumberOfColumns chain4_sorted \<le> length [1, 1, 1, 1, 3, 5 :: real] \<and>
   perm chain4_sorted ! (halo_row_ind chain4_sorted ! 1) = 1 \<and>
   perm chain4_sorted ! (halo_row_ind chain4_sorted ! 0) = 2 \<and>
   sizes chain4_sorted ! 0 = 2 \<and>
   symgs_halo_launch chain4_sorted [1, 1, 1, 1, 3, 5] = [1, 9 / 4, 1, 1, 3, 5]"
proof -
  let ?x = "[1, 1, 1, 1, 3, 5] :: real list"
  have h: "halo_wellformed chain4_sorted" "sizes chain4_sorted ! 0 \<le> length ?x"
    "localNumberOfColumns chain4_sorted \<le> length ?x"
    by (simp_all add: halo_wellformed_def chain4_sorted_def bounded_eval)
  have r: "halo_rows chain4_sorted = 2" "perm chain4_sorted ! (halo_row_ind chain4_sorted ! 1) = 1"
    "perm chain4_sorted ! (halo_row_ind chain4_sorted ! 0) = 2" "sizes chain4_sorted ! 0 = 2"
    by (simp_all add: chain4_sorted_def)
  have v: "halo_corrected_value chain4_sorted ?x 1 = 9 / 4"
    by (simp add: halo_corrected_value_def row_sum_def chain4_sorted_def upt_eval)
  note t = symgs_halo_launch_rows[OF h]
  have l: "length (symgs_halo_launch chain4_sorted ?x) = 6" using t by simp
  have e: "symgs_halo_launch chain4_sorted ?x ! 0 = 1"
    "symgs_halo_launch chain4_sorted ?x ! Suc 0 = 9 / 4"
    "symgs_halo_launch chain4_sorted ?x ! Suc (Suc 0) = 1"
    "symgs_halo_launch chain4_sorted ?x ! Suc (Suc (Suc 0)) = 1"
    "symgs_halo_launch chain4_sorted ?x ! Suc (Suc (Suc (Suc 0))) = 3"
    "symgs_halo_launch chain4_sorted ?x ! Suc (Suc (Suc (Suc (Suc 0)))) = 5"
    using t r v by (simp_all add: bounded_eval)
  have "symgs_halo_launch chain4_sorted ?x = [1, 9 / 4, 1, 1, 3, 5]"
  proof -
    have "\<forall>i<Suc (Suc (Suc (Suc (Suc (Suc 0))))).
            symgs_halo_launch chain4_sorted ?x ! i = [1, 9 / 4, 1, 1, 3, 5] ! i"
      unfolding All_less_Suc using e by simp
    then show ?thesis unfolding list_eq_iff_nth_eq using l by (simp add: eval_nat_numeral)
  qed
  then show ?thesis using h r by simp
qed

text \<open>
  Claim C9 as stated fails: row 1 of \<open>halo_chain\<close> is a local row with a halo neighbour (the
  ghost column 3, whose value is 1), and it is block 1.  The corrector leaves its entry at 0,
  where the correction described would give 1/2.
\<close>

theorem symgs_halo_later_block_counterexample:
  "halo_row_ind halo_chain ! 1 = 1 \<and> halo_col_ind halo_chain ! (0 * halo_rows halo_chain + 1) = 3 \<and>
   symgs_halo_launch halo_chain [0, 0, 1, 1] ! 1 = 0 \<and>
   halo_corrected_value halo_chain [0, 0, 1, 1] 1 = 1 / 2"
  by (simp add: symgs_halo_launch_def halo_chain_def kernel_symgs_halo_def kernel_symgs_halo_thread_def
      symgs_halo_slot_def fma_def Let_def upt_eval halo_corrected_value_def row_sum_def)

section \<open>Claims about the solver as a whole\<close>

text \<open>
  Claim C5, amended.  The general solver \<open>ComputeSYMGS\<close> started from the zero vector gives
  the result of the zero-guess variant \<open>ComputeSYMGSZeroGuess\<close>, for every right-hand side,
  when the matrix is one that the solver is built for (\<open>symgs_wellformed\<close>: the block table
  of the colouring, the diagonal slot with a nonzero entry and its reciprocal, the lower
  entries of a row stored before its diagonal and the upper ones after it, every block an
  independent set), and when on several domains every domain starts from zero, so that the
  exchange brings zeros.  The arithmetic is that of the reals.
\<close>

theorem zero_guess_equivalence:
  assumes wf: "symgs_wellformed A"
    and ex: "geom_size A > 1 \<longrightarrow> zero_ghost_exchange ObtainRecvBuffer A"
  shows "ComputeSYMGS ObtainRecvBuffer A r (replicate (localNumberOfColumns A) 0)
         = ComputeSYMGSZeroGuess A r (replicate (localNumberOfColumns A) 0)"
proof -
  let ?x = "replicate (localNumberOfColumns A) (0::real)"
  have bt: "block_table_wellformed A" using wf unfolding symgs_wellformed_def by simp
  then have nb: "0 < nblocks A"
    and ub: "ublocks A = int (nblocks A) - 1 \<or> ublocks A = int (nblocks A) - 2"
    unfolding block_table_wellformed_def by simp_all
  have i0: "fwd_inv A r 0 ?x" unfolding fwd_inv_def zero_from_def by simp
  note b0 = block0_agree[OF wf i0]
  let ?x1 = "symgs_interior_block A r ?x"
  have x1: "?x1 = pointwise_mult_block A r ?x" and i1: "fwd_inv A r (offsets A ! Suc 0) ?x1"
    using b0 by blast+
  have o1: "offsets A ! Suc 0 \<le> localNumberOfRows A" using block_end(2)[OF bt nb] .
  have z1: "zero_from A (localNumberOfRows A) ?x1"
    using i1 o1 unfolding fwd_inv_def by (blast intro: zero_from_mono)
  let ?x2 = "if geom_size A > 1 then symgs_halo_launch A (ObtainRecvBuffer ?x1) else ?x1"
  have x2: "?x2 = ?x1"
  proof (cases "geom_size A > 1")
    case True
    then have e: "zero_ghost_exchange ObtainRecvBuffer A" using ex by simp
    then have "ObtainRecvBuffer ?x1 = ?x1" using z1 unfolding zero_ghost_exchange_def by blast
    moreover have "symgs_halo_launch A ?x1 = ?x1"
      using e z1 unfolding zero_ghost_exchange_def by (intro halo_launch_zero) blast+
    ultimately show ?thesis using True by simp
  next
    case False
    then show ?thesis by simp
  qed
  note fp = forward_pass_agree[OF wf i1]
  let ?x3 = "fold (symgs_sweep_block A r) [1..<nblocks A] ?x1"
  have x3: "forward_sweep_upto A r (nblocks A) ?x = Some ?x3"
    and i3: "fwd_inv A r (localNumberOfRows A) ?x3"
    using fp unfolding forward_sweep_upto_def x1 by blast+
  have u: "nat (ublocks A + 1) \<le> nblocks A" using ub by auto
  let ?x4 = "fold (symgs_sweep_block A r) (rev [0..<nat (ublocks A + 1)]) ?x3"
  have x4: "backward_sweep_from A ?x3 = Some ?x4"
    unfolding backward_sweep_from_def
    by (rule backward_pass_agree[OF wf u fwd_inv_bwd_inv[OF wf u i3]])
  have "ComputeSYMGS ObtainRecvBuffer A r ?x = Inr ?x4"
    unfolding ComputeSYMGS_def Let_def x2 by simp
  moreover have "ComputeSYMGSZeroGuess A r ?x = Inr ?x4"
    unfolding ComputeSYMGSZeroGuess_def x3 using x4 by simp
  ultimately show ?thesis by simp
qed

theorem zero_guess_equivalence_witness:
  "symgs_wellformed halo_chain \<and> 1 < geom_size halo_chain \<and>
   zero_ghost_exchange (\<lambda>y. y) halo_chain \<and>
   ComputeSYMGS (\<lambda>y. y) halo_chain [1, 1] (replicate (localNumberOfColumns halo_chain) 0)
     = ComputeSYMGSZeroGuess halo_chain [1, 1] (replicate (localNumberOfColumns halo_chain) 0) \<and>
   ComputeSYMGSZeroGuess halo_chain [1, 1] (replicate (localNumberOfColumns halo_chain) 0)
     = Inr [7 / 8, 3 / 4, 0, 0]"
proof -
  have wf: "symgs_wellformed halo_chain"
    by (simp add: symgs_wellformed_def block_table_wellformed_def diagonal_wellformed_def
        slots_ordered_def blocks_independent_def block_independent_def in_block_def diag_val_def
        halo_chain_def bounded_eval)
  have ex: "zero_ghost_exchange (\<lambda>y. y) halo_chain"
    by (simp add: zero_ghost_exchange_def halo_chain_def bounded_eval)
  have g: "1 < geom_size halo_chain" by (simp add: halo_chain_def)
  have v: "ComputeSYMGSZeroGuess halo_chain [1, 1] (replicate (localNumberOfColumns halo_chain) 0)
     = Inr [7 / 8, 3 / 4, 0, 0]"
    by (simp add: ComputeSYMGSZeroGuess_def forward_sweep_upto_def backward_sweep_from_def
        pointwise_mult_block_def forward_sweep_0_block_def
        backward_sweep_0_block_def kernel_pointwise_mult_def kernel_forward_sweep_0_def
        kernel_forward_sweep_0_thread_def forward_sweep_0_slot_def kernel_backward_sweep_0_def
        kernel_backward_sweep_0_thread_def backward_sweep_0_slot_def fma_def Let_def
        halo_chain_def upt_eval eval_nat_numeral)
  show ?thesis
    using zero_guess_equivalence[of halo_chain "\<lambda>y. y" "[1, 1]"] wf ex g v by simp
qed

text \<open>
  Claim C5 as stated fails, in two ways.  In \<open>unordered_pair\<close> row 1 stores its lower entry
  behind its diagonal entry: the forward sweep of the zero-guess variant, which scans the
  slots below the diagonal slot only, misses it.  On \<open>halo_chain\<close> with an exchange that
  delivers the ghost values 1 and 1, the general solver corrects block 0 and reads the ghost
  columns in the later blocks; the zero-guess variant has no exchange and no correction.
\<close>

theorem zero_guess_unordered_counterexample:
  "ComputeSYMGS (\<lambda>y. y) unordered_pair [1, 1] [0, 0] = Inr [7 / 8, 3 / 4] \<and>
   ComputeSYMGSZeroGuess unordered_pair [1, 1] [0, 0] = Inr [3 / 4, 1 / 2] \<and>
   ComputeSYMGS (fill_ghosts 2 [1, 1]) halo_chain [1, 1] [0, 0, 0, 0] = Inr [7 / 4, 3 / 2, 1, 1] \<and>
   ComputeSYMGSZeroGuess halo_chain [1, 1] [0, 0, 0, 0] = Inr [7 / 8, 3 / 4, 0, 0]"
proof (intro conjI)
  show "ComputeSYMGS (\<lambda>y. y) unordered_pair [1, 1] [0, 0] = Inr [7 / 8, 3 / 4]"
    by (simp add: ComputeSYMGS_def symgs_interior_block_def symgs_sweep_block_def
        kernel_symgs_interior_def kernel_symgs_interior_thread_def kernel_symgs_sweep_def
        kernel_symgs_sweep_thread_def symgs_sweep_slot_def fma_def Let_def unordered_pair_def
        upt_eval)
  show "ComputeSYMGSZeroGuess unordered_pair [1, 1] [0, 0] = Inr [3 / 4, 1 / 2]"
    by (simp add: ComputeSYMGSZeroGuess_def forward_sweep_upto_def backward_sweep_from_def
        pointwise_mult_block_def forward_sweep_0_block_def
        backward_sweep_0_block_def kernel_pointwise_mult_def kernel_forward_sweep_0_def
        kernel_forward_sweep_0_thread_def forward_sweep_0_slot_def kernel_backward_sweep_0_def
        kernel_backward_sweep_0_thread_def backward_sweep_0_slot_def fma_def Let_def
        unordered_pair_def upt_eval eval_nat_numeral)
  show "ComputeSYMGS (fill_ghosts 2 [1, 1]) halo_chain [1, 1] [0, 0, 0, 0]
        = Inr [7 / 4, 3 / 2, 1, 1]"
    by (simp add: ComputeSYMGS_def symgs_interior_block_def symgs_sweep_block_def
        symgs_halo_launch_def kernel_symgs_halo_def kernel_symgs_halo_thread_def
        symgs_halo_slot_def fill_ghosts_def
        kernel_symgs_interior_def kernel_symgs_interior_thread_def kernel_symgs_sweep_def
        kernel_symgs_sweep_thread_def symgs_sweep_slot_def fma_def Let_def halo_chain_def
        upt_eval)
  show "ComputeSYMGSZeroGuess halo_chain [1, 1] [0, 0, 0, 0] = Inr [7 / 8, 3 / 4, 0, 0]"
    by (simp add: ComputeSYMGSZeroGuess_def forward_sweep_upto_def backward_sweep_from_def
        pointwise_mult_block_def forward_sweep_0_block_def
        backward_sweep_0_block_def kernel_pointwise_mult_def kernel_forward_sweep_0_def
        kernel_forward_sweep_0_thread_def forward_sweep_0_slot_def kernel_backward_sweep_0_def
        kernel_backward_sweep_0_thread_def backward_sweep_0_slot_def fma_def Let_def
        halo_chain_def upt_eval eval_nat_numeral)
qed




end
